theory Spec2Isabelle
  imports Main "HOL-Library.Signed_Division" "HOL-Library.Countable"
begin

section \<open>The pivid frame player and main loop\<close>

text \<open>
  This theory embeds \<^verbatim>\<open>ThreadFramePlayer\<close> of \<^verbatim>\<open>src/frame_player.cpp\<close> and
  \<^verbatim>\<open>Server::main_loop_thread\<close> of \<^verbatim>\<open>src/pivid_server.cpp\<close>.

  Times are \<^verbatim>\<open>std::chrono\<close> time points of the steady clock, modelled by their tick
  count since the clock's epoch as an unbounded \<^typ>\<open>int\<close>.  A \<^verbatim>\<open>Timeline\<close> is a
  \<^verbatim>\<open>std::map\<close> from time points to display atoms; it is modelled by the list of its
  entries in iteration order, which for a \<^verbatim>\<open>std::map\<close> is strictly increasing in the
  keys (\<open>timeline_ok\<close>).  An iterator is the index of its entry, \<^verbatim>\<open>begin()\<close> is \<open>0\<close>
  and \<^verbatim>\<open>end()\<close> is the length of the list.  Display atoms are opaque (\<open>'a\<close>).
\<close>

subsection \<open>Data\<close>

type_synonym steady_time = int

type_synonym 'a Timeline = "(steady_time \<times> 'a) list"

definition timeline_ok :: "'a Timeline \<Rightarrow> bool" where
  "timeline_ok tml = sorted_wrt (<) (map fst tml)"

definition keys :: "'a Timeline \<Rightarrow> steady_time list" where
  "keys tml = map fst tml"

text \<open>The fields of \<^verbatim>\<open>ThreadFramePlayer\<close> that its mutex guards.\<close>

record 'a player =
  timeline :: "'a Timeline"
  shown :: steady_time
  shutdown :: bool

text \<open>A freshly constructed player: empty timeline, \<^verbatim>\<open>shown = {}\<close> (the epoch).\<close>

definition new_player :: "'a player" where
  "new_player = \<lparr>timeline = [], shown = 0, shutdown = False\<rparr>"

text \<open>
  What a thread does is recorded as a list of operations: taking and releasing the
  mutex it works under, and the actions in between.
\<close>

datatype 'c op = Lock | Unlock | Act 'c

text \<open>
  The actions on a frame player: the assignment
  \<^verbatim>\<open>this->timeline = std::move(timeline)\<close> of \<^verbatim>\<open>set_timeline\<close> with the value
  stored, \<^verbatim>\<open>wakeup.notify_all()\<close>, the blocking part of
  \<^verbatim>\<open>wakeup.wait(lock)\<close> and of \<^verbatim>\<open>sys->wait_until(t, &wakeup, &lock)\<close>,
  \<^verbatim>\<open>logger->warn("Skip frame ...")\<close> with the scheduled time and the age in
  milliseconds, an assignment to \<^verbatim>\<open>shown\<close>, \<^verbatim>\<open>driver->update_done_yet\<close> with its
  result, and \<^verbatim>\<open>driver->update\<close> with the atom \<^verbatim>\<open>show->second\<close> (the key
  \<^verbatim>\<open>show->first\<close> is recorded with it).  Log statements of level trace and debug have
  no effect on the state and are left out.
\<close>

datatype 'a action =
    Store_timeline "(steady_time \<times> 'a) list"
  | Notify_all
  | Wait
  | Wait_until steady_time
  | Warn steady_time int
  | Set_shown steady_time
  | Done_yet bool
  | Update steady_time 'a

text \<open>
  \<^verbatim>\<open>condition_variable::wait\<close> releases the mutex, blocks, and takes the mutex again
  before it returns.
\<close>

definition cv_wait :: "'a action op list" where
  "cv_wait = [Unlock, Act Wait, Lock]"

text \<open>
  Modelled from the spec: \<^verbatim>\<open>UnixSystem::wait_until\<close> is not among the sources; by
  section 4.1 the wait releases the caller's mutex for the duration of the sleep and
  re-acquires it before returning.
\<close>

definition wait_until :: "steady_time \<Rightarrow> 'a action op list" where
  "wait_until t = [Unlock, Act (Wait_until t), Lock]"

text \<open>The steady clock counts nanoseconds, so \<^verbatim>\<open>1ms\<close> is this many ticks.\<close>

definition ticks_per_ms :: int where
  "ticks_per_ms = 1000000"

subsection \<open>\<^verbatim>\<open>set_timeline\<close> and \<^verbatim>\<open>last_shown\<close>\<close>

text \<open>
  \<^verbatim>\<open>timeline.size() == this->timeline.size() && std::equal(...)\<close> with the predicate
  comparing the keys (\<^verbatim>\<open>a.first == b.first\<close>).
\<close>

definition same_keys :: "'a Timeline \<Rightarrow> 'a Timeline \<Rightarrow> bool" where
  "same_keys new cur =
     (length new = length cur \<and> list_all2 (\<lambda>a b. fst a = fst b) new cur)"

text \<open>
  \<^verbatim>\<open>set_timeline\<close> takes the mutex, compares the keys, stores the new timeline,
  and notifies the condition variable, after unlocking, when the timeline now
  stored is not empty and the keys are not the same.  Leaving the function releases
  the lock otherwise.
\<close>

definition set_timeline :: "'a Timeline \<Rightarrow> 'a player \<Rightarrow> 'a action op list \<times> 'a player" where
  "set_timeline tml p =
     (let sk = same_keys tml (timeline p);
          p' = p\<lparr>timeline := tml\<rparr>
      in if timeline p' \<noteq> [] \<and> \<not> sk
         then ([Lock, Act (Store_timeline tml), Unlock, Act Notify_all], p')
         else ([Lock, Act (Store_timeline tml), Unlock], p'))"

definition last_shown :: "'a player \<Rightarrow> steady_time" where
  "last_shown p = shown p"

subsection \<open>The player thread\<close>

text \<open>
  \<^verbatim>\<open>std::map::upper_bound(t)\<close>: the position of the first entry whose key is greater
  than \<open>t\<close>, or \<^verbatim>\<open>end()\<close>.
\<close>

fun upper_bound :: "'a Timeline \<Rightarrow> steady_time \<Rightarrow> nat" where
  "upper_bound [] t = 0"
| "upper_bound ((k, a) # tml) t = (if t < k then 0 else Suc (upper_bound tml t))"

text \<open>Lines 114 to 119: the choice of \<^verbatim>\<open>show\<close>.\<close>

definition select_show :: "'a Timeline \<Rightarrow> steady_time \<Rightarrow> steady_time \<Rightarrow> nat" where
  "select_show tml sh now =
     (let show = upper_bound tml now
      in if show \<noteq> 0
         then (let before_it = show - 1
               in if fst (tml ! before_it) > sh then before_it else show)
         else show)"

text \<open>
  Lines 121 to 130: the loop \<^verbatim>\<open>for (s = upper_bound(shown); s != show; ++s)\<close>.  The
  loop only stops when \<open>s\<close> meets \<open>show\<close>; when \<open>s\<close> is \<^verbatim>\<open>end()\<close> and not \<open>show\<close>,
  the body dereferences the end iterator, which is undefined behaviour (\<open>None\<close>).
  \<open>warn\<close> is \<^verbatim>\<open>logger->should_log(log_level::warn)\<close>.  The age is a quotient of
  integer durations, which truncates towards zero.
\<close>

definition skip_actions :: "bool \<Rightarrow> steady_time \<Rightarrow> steady_time \<Rightarrow> 'a action op list" where
  "skip_actions warn now k =
     (if warn then [Act (Warn k ((now - k) sdiv ticks_per_ms))] else []) @ [Act (Set_shown k)]"

function skip_loop ::
  "bool \<Rightarrow> 'a Timeline \<Rightarrow> steady_time \<Rightarrow> nat \<Rightarrow> nat \<Rightarrow> steady_time
     \<Rightarrow> ('a action op list \<times> steady_time) option" where
  "skip_loop warn tml now show s sh =
     (if s = show then Some ([], sh)
      else if length tml \<le> s then None
      else case skip_loop warn tml now show (Suc s) (fst (tml ! s)) of
             None \<Rightarrow> None
           | Some (acts, sh') \<Rightarrow> Some (skip_actions warn now (fst (tml ! s)) @ acts, sh'))"
  by pat_completeness auto
termination
  by (relation "measure (\<lambda>(warn, tml, now, show, s, sh). length tml - s)") auto

declare skip_loop.simps [simp del]

text \<open>
  Lines 132 to 163, what the pass does with the chosen \<^verbatim>\<open>show\<close> once the skips are
  accounted for: wait when \<open>show\<close> is \<^verbatim>\<open>end()\<close> or lies in the future or the
  driver is busy, else submit the atom and record its key.  \<open>done\<close> is what
  \<^verbatim>\<open>driver->update_done_yet(connector_id)\<close> returns, should the pass call it.
\<close>

definition present ::
  "steady_time \<Rightarrow> bool \<Rightarrow> nat \<Rightarrow> 'a player \<Rightarrow> 'a action op list \<times> 'a player" where
  "present now done show p =
     (if show = length (timeline p) then (cv_wait, p)
      else if fst (timeline p ! show) > now
        then (wait_until (fst (timeline p ! show)), p)
      else if \<not> done
        then (Act (Done_yet False) # wait_until (now + 5 * ticks_per_ms), p)
      else ([Act (Done_yet True),
             Act (Update (fst (timeline p ! show)) (snd (timeline p ! show))),
             Act (Set_shown (fst (timeline p ! show)))],
            p\<lparr>shown := fst (timeline p ! show)\<rparr>))"

text \<open>
  One pass through the body of \<^verbatim>\<open>while (!shutdown)\<close>, entered with the mutex held.
  \<open>now\<close> is what \<^verbatim>\<open>sys->steady_time()\<close> returns.
\<close>

definition iteration ::
  "steady_time \<Rightarrow> bool \<Rightarrow> bool \<Rightarrow> 'a player \<Rightarrow> ('a action op list \<times> 'a player) option" where
  "iteration now done warn p =
     (if timeline p = [] then Some (cv_wait, p)
      else
        let show = select_show (timeline p) (shown p) now
        in case skip_loop warn (timeline p) now show
                  (upper_bound (timeline p) (shown p)) (shown p) of
             None \<Rightarrow> None
           | Some (skips, sh) \<Rightarrow>
               (case present now done show (p\<lparr>shown := sh\<rparr>) of
                  (acts, p') \<Rightarrow> Some (skips @ acts, p')))"

text \<open>
  The loop test \<^verbatim>\<open>while (!shutdown)\<close> with one pass: once \<^verbatim>\<open>shutdown\<close> is set the
  thread leaves the loop and does nothing more.
\<close>

definition player_thread_step ::
  "steady_time \<Rightarrow> bool \<Rightarrow> bool \<Rightarrow> 'a player \<Rightarrow> ('a action op list \<times> 'a player) option" where
  "player_thread_step now done warn p =
     (if shutdown p then Some ([], p) else iteration now done warn p)"

subsection \<open>Executions of one player\<close>

text \<open>
  The player thread holds the mutex except inside a wait, so every call of
  \<^verbatim>\<open>set_timeline\<close> by another thread falls between two passes of the loop.  An
  execution is therefore a sequence of passes, each with the clock reading, the
  driver's answer and the logger's setting it meets, and of \<^verbatim>\<open>set_timeline\<close> calls,
  in any order (a wait may end at any time).
\<close>

datatype 'a env = Iterate steady_time bool bool | Set_timeline "'a Timeline"

record 'a step =
  input :: "'a env"
  pre :: "'a player"
  ops :: "'a action op list"
  post :: "'a player"

fun env_step :: "'a env \<Rightarrow> 'a player \<Rightarrow> ('a action op list \<times> 'a player) option" where
  "env_step (Iterate now done warn) p = player_thread_step now done warn p"
| "env_step (Set_timeline tml) p = Some (set_timeline tml p)"

fun run :: "'a env list \<Rightarrow> 'a player \<Rightarrow> 'a step list option" where
  "run [] p = Some []"
| "run (e # es) p =
     (case env_step e p of
        None \<Rightarrow> None
      | Some (acts, p') \<Rightarrow>
          (case run es p' of
             None \<Rightarrow> None
           | Some log \<Rightarrow> Some (\<lparr>input = e, pre = p, ops = acts, post = p'\<rparr> # log)))"

text \<open>
  The steady clock never goes back: every reading is at least \<open>t\<close> and at least the
  reading before it.  Every timeline handed in is a \<^verbatim>\<open>std::map\<close>.
\<close>

fun clock_ok :: "steady_time \<Rightarrow> 'a env list \<Rightarrow> bool" where
  "clock_ok t [] = True"
| "clock_ok t (Iterate now done warn # es) = (t \<le> now \<and> clock_ok now es)"
| "clock_ok t (Set_timeline tml # es) = clock_ok t es"

fun timelines_ok :: "'a env list \<Rightarrow> bool" where
  "timelines_ok [] = True"
| "timelines_ok (Iterate now done warn # es) = timelines_ok es"
| "timelines_ok (Set_timeline tml # es) = (timeline_ok tml \<and> timelines_ok es)"

fun always_busy :: "'a env list \<Rightarrow> bool" where
  "always_busy [] = True"
| "always_busy (Iterate now done warn # es) = (\<not> done \<and> always_busy es)"
| "always_busy (Set_timeline tml # es) = always_busy es"

text \<open>Projections of a list of operations.\<close>

fun update_keys :: "'a action op list \<Rightarrow> steady_time list" where
  "update_keys [] = []"
| "update_keys (Act (Update k a) # xs) = k # update_keys xs"
| "update_keys (x # xs) = update_keys xs"

fun shown_values :: "'a action op list \<Rightarrow> steady_time list" where
  "shown_values [] = []"
| "shown_values (Act (Set_shown k) # xs) = k # shown_values xs"
| "shown_values (x # xs) = shown_values xs"

text \<open>
  Each action of a list of operations, with whether the mutex is held when it is
  performed; \<open>h\<close> says whether it is held at the start.
\<close>

fun lock_trace :: "bool \<Rightarrow> 'c op list \<Rightarrow> (bool \<times> 'c) list" where
  "lock_trace h [] = []"
| "lock_trace h (Lock # xs) = lock_trace True xs"
| "lock_trace h (Unlock # xs) = lock_trace False xs"
| "lock_trace h (Act c # xs) = (h, c) # lock_trace h xs"

fun lock_after :: "bool \<Rightarrow> 'c op list \<Rightarrow> bool" where
  "lock_after h [] = h"
| "lock_after h (Lock # xs) = lock_after True xs"
| "lock_after h (Unlock # xs) = lock_after False xs"
| "lock_after h (Act c # xs) = lock_after h xs"

fun is_wait :: "'a action \<Rightarrow> bool" where
  "is_wait Wait = True"
| "is_wait (Wait_until t) = True"
| "is_wait c = False"

subsection \<open>The main loop of the server\<close>

text \<open>
  \<^verbatim>\<open>Server::main_loop_thread\<close> computes in \<^verbatim>\<open>double\<close>.  The arithmetic of
  \<^verbatim>\<open>double\<close> is not modelled: the numbers are of any type \<open>'d\<close> and the operations
  the loop uses on them are taken as parameters.
\<close>

record 'd arith =
  d_zero :: 'd
  d_one :: 'd
  d_add :: "'d \<Rightarrow> 'd \<Rightarrow> 'd"
  d_sub :: "'d \<Rightarrow> 'd \<Rightarrow> 'd"
  d_div :: "'d \<Rightarrow> 'd \<Rightarrow> 'd"
  d_less :: "'d \<Rightarrow> 'd \<Rightarrow> bool"

text \<open>\<^verbatim>\<open>std::max(a, b)\<close> is \<^verbatim>\<open>(a < b) ? b : a\<close>.\<close>

definition d_max :: "'d arith \<Rightarrow> 'd \<Rightarrow> 'd \<Rightarrow> 'd" where
  "d_max ar a b = (if d_less ar a b then b else a)"

text \<open>Of a \<^verbatim>\<open>Script\<close> the loop reads \<^verbatim>\<open>main_loop_hz\<close> only.\<close>

record 'd script =
  main_loop_hz :: 'd

text \<open>
  The state of the loop: the fields \<^verbatim>\<open>script\<close> and \<^verbatim>\<open>shutdown\<close> of \<^verbatim>\<open>Server\<close>,
  guarded by its mutex, and the local \<^verbatim>\<open>last_mono\<close>.
\<close>

record 'd server =
  srv_script :: "'d script option"
  srv_shutdown :: bool
  last_mono :: 'd

datatype 'd main_action =
    Flag_sleep
  | Flag_sleep_until 'd
  | Runner_update "'d script"

text \<open>
  One pass through the body of the loop, entered with the mutex held; \<open>mono_now\<close> (the source's \<^verbatim>\<open>mono\<close>) is
  what \<^verbatim>\<open>cx.sys->clock(CLOCK_MONOTONIC)\<close> returns.  A failing \<^verbatim>\<open>ASSERT\<close> ends the
  program (\<open>None\<close>).
\<close>

definition main_loop_iteration ::
  "'d arith \<Rightarrow> 'd \<Rightarrow> 'd server \<Rightarrow> ('d main_action op list \<times> 'd server) option" where
  "main_loop_iteration ar mono_now sv =
     (case srv_script sv of
        None \<Rightarrow> Some ([Unlock, Act Flag_sleep, Lock], sv)
      | Some sc \<Rightarrow>
          if \<not> d_less ar (d_zero ar) (main_loop_hz sc) then None
          else
            let period = d_div ar (d_one ar) (main_loop_hz sc)
            in if d_less ar mono_now (d_add ar (last_mono sv) period)
               then Some ([Unlock, Act (Flag_sleep_until (d_add ar (last_mono sv) period)), Lock],
                          sv)
               else Some ([Unlock, Act (Runner_update sc), Lock],
                          sv\<lparr>last_mono :=
                               d_max ar (d_add ar (last_mono sv) period) (d_sub ar mono_now period)\<rparr>))"

text \<open>
  The loop test \<^verbatim>\<open>while (!shutdown)\<close> with one pass, as for the player thread.
\<close>

definition main_loop_thread_step ::
  "'d arith \<Rightarrow> 'd \<Rightarrow> 'd server \<Rightarrow> ('d main_action op list \<times> 'd server) option" where
  "main_loop_thread_step ar mono_now sv =
     (if srv_shutdown sv then Some ([], sv) else main_loop_iteration ar mono_now sv)"


subsection \<open>Notions used to state the properties\<close>

text \<open>
  The keys that lie strictly between \<open>sh\<close> and the position \<open>show\<close>: those of the
  entries before \<open>show\<close> that are greater than \<open>sh\<close>, in the order of the timeline.
\<close>

definition skipped :: "'a Timeline \<Rightarrow> steady_time \<Rightarrow> nat \<Rightarrow> steady_time list" where
  "skipped tml sh show = filter (\<lambda>k. sh < k) (keys (take show tml))"

section \<open>Properties\<close>

subsection \<open>Keys and \<open>upper_bound\<close>\<close>

lemma list_all2_fst_eq:
  "list_all2 (\<lambda>a b. fst a = fst b) new cur \<longleftrightarrow> map fst new = map fst cur"
proof (induction new arbitrary: cur)
  case Nil
  then show ?case by simp
next
  case (Cons e new)
  then show ?case by (cases cur) simp_all
qed

lemma same_keys_iff: "same_keys new cur \<longleftrightarrow> keys new = keys cur"
proof -
  have "map fst new = map fst cur \<Longrightarrow> length new = length cur"
    by (rule map_eq_imp_length_eq)
  then show ?thesis
    unfolding same_keys_def keys_def list_all2_fst_eq by blast
qed

lemma keys_eq_iff_set:
  assumes "timeline_ok a" "timeline_ok b"
  shows "keys a = keys b \<longleftrightarrow> set (keys a) = set (keys b)"
proof
  assume "keys a = keys b"
  then show "set (keys a) = set (keys b)" by simp
next
  assume eq: "set (keys a) = set (keys b)"
  have "sorted (keys a)" "distinct (keys a)" "sorted (keys b)" "distinct (keys b)"
    using assms by (simp_all add: timeline_ok_def keys_def strict_sorted_iff)
  then show "keys a = keys b"
    using eq by (blast intro: sorted_distinct_set_unique)
qed

lemma upper_bound_le: "upper_bound tml t \<le> length tml"
  by (induction tml) auto

lemma timeline_ok_Cons:
  "timeline_ok ((k, a) # tml) \<longleftrightarrow> (\<forall>e \<in> set tml. k < fst e) \<and> timeline_ok tml"
  by (auto simp: timeline_ok_def)

lemma upper_bound_iff:
  "timeline_ok tml \<Longrightarrow> i < length tml \<Longrightarrow> i < upper_bound tml t \<longleftrightarrow> fst (tml ! i) \<le> t"
proof (induction tml arbitrary: i)
  case Nil
  then show ?case by simp
next
  case (Cons e tml)
  obtain k a where e: "e = (k, a)" by (cases e)
  from Cons.prems e have ok: "timeline_ok tml" and above: "\<forall>x \<in> set tml. k < fst x"
    by (simp_all add: timeline_ok_Cons)
  show ?case
  proof (cases i)
    case 0
    then show ?thesis using e by auto
  next
    case (Suc j)
    with Cons.prems have j: "j < length tml" by simp
    then have "k < fst (tml ! j)" using above by simp
    moreover have "j < upper_bound tml t \<longleftrightarrow> fst (tml ! j) \<le> t"
      using Cons.IH [OF ok j] .
    ultimately show ?thesis using e Suc by auto
  qed
qed

lemma upper_bound_mono:
  assumes "timeline_ok tml" "t \<le> t'"
  shows "upper_bound tml t \<le> upper_bound tml t'"
proof (rule ccontr)
  assume "\<not> ?thesis"
  then have lt: "upper_bound tml t' < upper_bound tml t" by simp
  then have len: "upper_bound tml t' < length tml"
    using upper_bound_le [of tml t] by simp
  from upper_bound_iff [OF assms(1) len, of t] lt
  have "fst (tml ! upper_bound tml t') \<le> t" by simp
  then have "fst (tml ! upper_bound tml t') \<le> t'" using assms(2) by simp
  with upper_bound_iff [OF assms(1) len, of t'] show False by simp
qed

lemma upper_bound_take: "upper_bound (take n tml) t = min n (upper_bound tml t)"
proof (induction tml arbitrary: n)
  case Nil
  then show ?case by simp
next
  case (Cons e tml)
  then show ?case by (cases n; cases e) auto
qed

lemma timeline_ok_take: "timeline_ok tml \<Longrightarrow> timeline_ok (take n tml)"
  by (simp add: timeline_ok_def take_map [symmetric] sorted_wrt_take)

lemma filter_above_drop:
  "timeline_ok tml \<Longrightarrow> filter (\<lambda>e. sh < fst e) tml = drop (upper_bound tml sh) tml"
proof (induction tml)
  case Nil
  then show ?case by simp
next
  case (Cons e tml)
  obtain k a where e: "e = (k, a)" by (cases e)
  from Cons.prems e have ok: "timeline_ok tml" and above: "\<forall>x \<in> set tml. k < fst x"
    by (simp_all add: timeline_ok_Cons)
  show ?case
  proof (cases "sh < k")
    case True
    then have "\<forall>x \<in> set tml. sh < fst x" using above by auto
    then have "filter (\<lambda>e. sh < fst e) tml = tml" by (simp add: filter_id_conv)
    then show ?thesis using True e by simp
  next
    case False
    then show ?thesis using e Cons.IH [OF ok] by simp
  qed
qed

subsection \<open>The skip loop and the choice of \<open>show\<close>\<close>

lemma skip_loop_run:
  "s \<le> show \<Longrightarrow> show \<le> length tml \<Longrightarrow>
   skip_loop warn tml now show s sh =
     Some (concat (map (skip_actions warn now) (keys (drop s (take show tml)))),
           last (sh # keys (drop s (take show tml))))"
proof (induction warn tml now "show" s sh rule: skip_loop.induct)
  case (1 warn tml now "show" s sh)
  show ?case
  proof (cases "s = show")
    case True
    then show ?thesis by (simp add: skip_loop.simps keys_def)
  next
    case False
    with "1.prems" have lt: "s < show" and len: "s < length tml" by simp_all
    then have sl: "s < length (take show tml)" by simp
    have d: "drop s (take show tml) = tml ! s # drop (Suc s) (take show tml)"
      using Cons_nth_drop_Suc [OF sl] lt by simp
    have ih: "skip_loop warn tml now show (Suc s) (fst (tml ! s)) =
       Some (concat (map (skip_actions warn now) (keys (drop (Suc s) (take show tml)))),
             last (fst (tml ! s) # keys (drop (Suc s) (take show tml))))"
      using "1.IH" False len lt "1.prems" by simp
    show ?thesis
      using False len by (subst skip_loop.simps) (simp add: ih d keys_def)
  qed
qed

lemma skip_loop_Some_le:
  "skip_loop warn tml now show s sh = Some r \<Longrightarrow> s \<le> show"
proof (induction warn tml now "show" s sh arbitrary: r rule: skip_loop.induct)
  case (1 warn tml now "show" s sh)
  show ?case
  proof (cases "s = show")
    case True
    then show ?thesis by simp
  next
    case False
    have len: "\<not> length tml \<le> s"
      using "1.prems" False by (subst (asm) skip_loop.simps) (simp split: if_splits)
    obtain r' where "skip_loop warn tml now show (Suc s) (fst (tml ! s)) = Some r'"
      using "1.prems" False len
      by (subst (asm) skip_loop.simps) (auto split: option.splits)
    with "1.IH" False len have "Suc s \<le> show" by simp
    then show ?thesis by simp
  qed
qed

lemma select_show_le: "select_show tml sh now \<le> length tml"
  using upper_bound_le [of tml now] by (auto simp: select_show_def Let_def)

lemma select_show_cases:
  "select_show tml sh now =
     (if upper_bound tml now \<noteq> 0 \<and> sh < fst (tml ! (upper_bound tml now - 1))
      then upper_bound tml now - 1 else upper_bound tml now)"
  by (simp add: select_show_def Let_def)

lemma upper_bound_le_select:
  assumes ok: "timeline_ok tml" and le: "sh \<le> now"
  shows "upper_bound tml sh \<le> select_show tml sh now"
proof (cases "upper_bound tml now \<noteq> 0 \<and> sh < fst (tml ! (upper_bound tml now - 1))")
  case True
  then have "0 < upper_bound tml now" by simp
  then have len: "upper_bound tml now - 1 < length tml"
    using upper_bound_le [of tml now] by linarith
  from True upper_bound_iff [OF ok len, of sh]
  have "\<not> upper_bound tml now - 1 < upper_bound tml sh" by simp
  then show ?thesis using True by (simp add: select_show_cases)
next
  case False
  then show ?thesis using upper_bound_mono [OF ok le] by (auto simp: select_show_cases)
qed

lemma skipped_drop:
  assumes ok: "timeline_ok tml" and le: "upper_bound tml sh \<le> show"
  shows "keys (drop (upper_bound tml sh) (take show tml)) = skipped tml sh show"
proof -
  have "filter (\<lambda>e. sh < fst e) (take show tml)
          = drop (upper_bound (take show tml) sh) (take show tml)"
    using filter_above_drop [OF timeline_ok_take [OF ok]] .
  also have "upper_bound (take show tml) sh = upper_bound tml sh"
    using le by (simp add: upper_bound_take)
  finally show ?thesis
    by (simp add: skipped_def keys_def filter_map comp_def)
qed

subsection \<open>One pass of the loop\<close>

lemma shown_values_append: "shown_values (xs @ ys) = shown_values xs @ shown_values ys"
  by (induction xs rule: shown_values.induct) simp_all

lemma update_keys_append: "update_keys (xs @ ys) = update_keys xs @ update_keys ys"
  by (induction xs rule: update_keys.induct) simp_all

lemma shown_values_skips:
  "shown_values (concat (map (skip_actions warn now) ks)) = ks"
  by (induction ks) (simp_all add: skip_actions_def shown_values_append)

lemma update_keys_skips:
  "update_keys (concat (map (skip_actions warn now) ks)) = []"
  by (induction ks) (simp_all add: skip_actions_def update_keys_append)

lemma update_keys_mem: "k \<in> set (update_keys xs) \<longleftrightarrow> (\<exists>a. Act (Update k a) \<in> set xs)"
  by (induction xs rule: update_keys.induct) auto

lemma shown_values_mem: "k \<in> set (shown_values xs) \<longleftrightarrow> Act (Set_shown k) \<in> set xs"
  by (induction xs rule: shown_values.induct) auto

lemma iteration_explicit:
  assumes ok: "timeline_ok (timeline p)" and ne: "timeline p \<noteq> []"
    and le: "upper_bound (timeline p) (shown p) \<le> select_show (timeline p) (shown p) now"
  shows "iteration now done warn p =
     Some (concat (map (skip_actions warn now)
                    (skipped (timeline p) (shown p) (select_show (timeline p) (shown p) now)))
             @ fst (present now done (select_show (timeline p) (shown p) now)
                     (p\<lparr>shown := last (shown p # skipped (timeline p) (shown p)
                                       (select_show (timeline p) (shown p) now))\<rparr>)),
           snd (present now done (select_show (timeline p) (shown p) now)
                     (p\<lparr>shown := last (shown p # skipped (timeline p) (shown p)
                                       (select_show (timeline p) (shown p) now))\<rparr>)))"
proof -
  let ?show = "select_show (timeline p) (shown p) now"
  have "skip_loop warn (timeline p) now ?show (upper_bound (timeline p) (shown p)) (shown p)
          = Some (concat (map (skip_actions warn now) (skipped (timeline p) (shown p) ?show)),
                  last (shown p # skipped (timeline p) (shown p) ?show))"
    using skip_loop_run [OF le select_show_le] skipped_drop [OF ok le] by simp
  then show ?thesis
    using ne by (simp add: iteration_def Let_def split: prod.splits)
qed

lemma iteration_defined:
  assumes "timeline_ok (timeline p)" "shown p \<le> now"
  shows "iteration now done warn p \<noteq> None"
proof (cases "timeline p = []")
  case True
  then show ?thesis by (simp add: iteration_def)
next
  case False
  show ?thesis
    using iteration_explicit [OF assms(1) False upper_bound_le_select [OF assms]] by simp
qed

lemma iteration_Some_le:
  assumes "iteration now done warn p = Some r" "timeline p \<noteq> []"
  shows "upper_bound (timeline p) (shown p) \<le> select_show (timeline p) (shown p) now"
proof -
  from assms obtain r' where
    "skip_loop warn (timeline p) now (select_show (timeline p) (shown p) now)
       (upper_bound (timeline p) (shown p)) (shown p) = Some r'"
    by (auto simp: iteration_def Let_def split: option.splits)
  then show ?thesis by (rule skip_loop_Some_le)
qed

subsection \<open>Skipped keys\<close>

lemma keys_nth: "i < length tml \<Longrightarrow> keys tml ! i = fst (tml ! i)"
  by (simp add: keys_def)

lemma timeline_ok_nth_less:
  "timeline_ok tml \<Longrightarrow> i < j \<Longrightarrow> j < length tml \<Longrightarrow> fst (tml ! i) < fst (tml ! j)"
  using sorted_wrt_nth_less [of "(<)" "map fst tml" i j] by (simp add: timeline_ok_def)

lemma skipped_above: "x \<in> set (skipped tml sh show) \<Longrightarrow> sh < x"
  by (simp add: skipped_def)

lemma skipped_sorted: "timeline_ok tml \<Longrightarrow> sorted_wrt (<) (skipped tml sh show)"
  unfolding skipped_def keys_def timeline_ok_def
  by (simp add: take_map [symmetric] sorted_wrt_take sorted_wrt_filter)

lemma skipped_sorted_from:
  "timeline_ok tml \<Longrightarrow> sorted_wrt (<) (sh # skipped tml sh show)"
  using skipped_sorted [of tml sh "show"] skipped_above [of _ tml sh "show"] by simp

lemma skipped_set:
  assumes "timeline_ok tml" "show < length tml"
  shows "set (skipped tml sh show)
           = {k \<in> set (keys tml). sh < k \<and> k < fst (tml ! show)}"
proof -
  have "set (keys (take show tml)) = {k \<in> set (keys tml). k < fst (tml ! show)}"
  proof (intro set_eqI iffI)
    fix k assume "k \<in> set (keys (take show tml))"
    then obtain i where i: "i < show" "i < length tml" "k = fst (tml ! i)"
      by (auto simp: keys_def in_set_conv_nth)
    then have "k < fst (tml ! show)"
      using timeline_ok_nth_less [OF assms(1) i(1) assms(2)] by simp
    moreover have "k \<in> set (keys tml)" using i by (auto simp: keys_def)
    ultimately show "k \<in> {k \<in> set (keys tml). k < fst (tml ! show)}" by simp
  next
    fix k assume "k \<in> {k \<in> set (keys tml). k < fst (tml ! show)}"
    then obtain i where i: "i < length tml" "k = fst (tml ! i)" "k < fst (tml ! show)"
      by (auto simp: keys_def in_set_conv_nth)
    have "i < show"
    proof (rule ccontr)
      assume "\<not> i < show"
      then have "show = i \<or> show < i" by auto
      then have "fst (tml ! show) \<le> fst (tml ! i)"
        using timeline_ok_nth_less [OF assms(1) _ i(1), of "show"] by auto
      with i show False by simp
    qed
    then have "i < length (take show tml)" "take show tml ! i = tml ! i"
      using i(1) by simp_all
    then show "k \<in> set (keys (take show tml))"
      unfolding keys_def using i(2) by (metis length_map nth_map nth_mem)
  qed
  then show ?thesis by (auto simp: skipped_def)
qed

lemma skipped_subset: "set (skipped tml sh show) \<subseteq> set (keys tml)"
  by (auto simp: skipped_def keys_def dest: in_set_takeD)

lemma skipped_le_now:
  assumes ok: "timeline_ok tml" and mem: "x \<in> set (skipped tml sh (select_show tml sh now))"
  shows "x \<le> now"
proof -
  from mem have "x \<in> set (keys (take (select_show tml sh now) tml))"
    by (simp add: skipped_def)
  then obtain i where i: "i < select_show tml sh now" "i < length tml" "x = fst (tml ! i)"
    by (auto simp: keys_def in_set_conv_nth)
  have "select_show tml sh now \<le> upper_bound tml now"
    by (simp add: select_show_cases)
  then have "i < upper_bound tml now" using i(1) by simp
  then show ?thesis using upper_bound_iff [OF ok i(2), of now] i(3) by simp
qed

lemma select_show_due:
  assumes ok: "timeline_ok tml" and len: "select_show tml sh now < length tml"
    and due: "fst (tml ! select_show tml sh now) \<le> now"
  shows "sh < fst (tml ! select_show tml sh now)
         \<and> select_show tml sh now = upper_bound tml now - 1 \<and> 0 < upper_bound tml now"
proof (cases "upper_bound tml now \<noteq> 0 \<and> sh < fst (tml ! (upper_bound tml now - 1))")
  case True
  then show ?thesis by (simp add: select_show_cases)
next
  case False
  then have eq: "select_show tml sh now = upper_bound tml now"
    by (auto simp: select_show_cases)
  from upper_bound_iff [OF ok, of "upper_bound tml now" now] len due eq
  show ?thesis by simp
qed

lemma select_show_none_skipped:
  assumes ok: "timeline_ok tml"
    and le: "upper_bound tml sh \<le> select_show tml sh now"
    and eq: "select_show tml sh now = upper_bound tml now"
  shows "skipped tml sh (select_show tml sh now) = []"
proof -
  have "upper_bound tml now \<le> upper_bound tml sh"
  proof (cases "upper_bound tml now = 0")
    case True
    then show ?thesis by simp
  next
    case False
    then have len: "upper_bound tml now - 1 < length tml"
      using upper_bound_le [of tml now] by linarith
    from False eq have "\<not> sh < fst (tml ! (upper_bound tml now - 1))"
      by (auto simp: select_show_cases split: if_splits)
    then have "upper_bound tml now - 1 < upper_bound tml sh"
      using upper_bound_iff [OF ok len, of sh] by simp
    then show ?thesis by linarith
  qed
  then have "drop (upper_bound tml sh) (take (upper_bound tml now) tml) = []" by simp
  then show ?thesis
    using skipped_drop [OF ok le] eq by (simp add: keys_def)
qed

lemma sorted_less_le_last:
  "sorted_wrt (<) (zs :: int list) \<Longrightarrow> z \<in> set zs \<Longrightarrow> z \<le> last zs"
proof (induction zs)
  case Nil
  then show ?case by simp
next
  case (Cons y zs)
  then show ?case by (cases zs) (auto simp: less_imp_le)
qed

lemma sorted_less_chain:
  assumes "sorted_wrt (<) (x # xs :: int list)" "sorted_wrt (<) (last (x # xs) # ys)"
  shows "sorted_wrt (<) (x # xs @ ys)"
proof -
  have "\<forall>a \<in> set (x # xs). \<forall>b \<in> set ys. a < b"
  proof (intro ballI)
    fix a b assume a: "a \<in> set (x # xs)" and b: "b \<in> set ys"
    have "a \<le> last (x # xs)" using sorted_less_le_last [OF assms(1) a] .
    moreover have "last (x # xs) < b" using assms(2) b by simp
    ultimately show "a < b" by simp
  qed
  then have "sorted_wrt (<) ((x # xs) @ ys)"
    using assms unfolding sorted_wrt_append by simp
  then show ?thesis by simp
qed

subsection \<open>What a pass does\<close>

lemma present_frame:
  "timeline (snd (present now done show p)) = timeline p
   \<and> shutdown (snd (present now done show p)) = shutdown p"
  by (simp add: present_def)

lemma present_shown:
  "shown (snd (present now done show p)) =
     (if show \<noteq> length (timeline p) \<and> fst (timeline p ! show) \<le> now \<and> done
      then fst (timeline p ! show) else shown p)"
  by (simp add: present_def)

lemma present_shown_values:
  "shown_values (fst (present now done show p)) =
     (if show \<noteq> length (timeline p) \<and> fst (timeline p ! show) \<le> now \<and> done
      then [fst (timeline p ! show)] else [])"
  by (simp add: present_def cv_wait_def wait_until_def)

lemma present_update_keys:
  "update_keys (fst (present now done show p)) =
     (if show \<noteq> length (timeline p) \<and> fst (timeline p ! show) \<le> now \<and> done
      then [fst (timeline p ! show)] else [])"
  by (simp add: present_def cv_wait_def wait_until_def)

lemma present_update_mem:
  "Act (Update k a) \<in> set (fst (present now done show p)) \<longleftrightarrow>
     show \<noteq> length (timeline p) \<and> fst (timeline p ! show) \<le> now \<and> done
     \<and> k = fst (timeline p ! show) \<and> a = snd (timeline p ! show)"
  by (auto simp: present_def cv_wait_def wait_until_def)

lemma skips_no_update:
  "Act (Update k a) \<notin> set (concat (map (skip_actions warn now) ks))"
  by (induction ks) (auto simp: skip_actions_def)

lemma update_mem_after_skips:
  "Act (Update k a) \<in> set (concat (map (skip_actions warn now) ks) @ rest)
     \<longleftrightarrow> Act (Update k a) \<in> set rest"
  by (induction ks) (auto simp: skip_actions_def)

text \<open>What a pass that returns has done, in terms of the skipped keys.\<close>

lemma iteration_Some:
  assumes ok: "timeline_ok (timeline p)" and ne: "timeline p \<noteq> []"
    and it: "iteration now done warn p = Some (acts, p')"
  shows "acts = concat (map (skip_actions warn now)
                    (skipped (timeline p) (shown p) (select_show (timeline p) (shown p) now)))
             @ fst (present now done (select_show (timeline p) (shown p) now)
                     (p\<lparr>shown := last (shown p # skipped (timeline p) (shown p)
                                       (select_show (timeline p) (shown p) now))\<rparr>))"
    and "p' = snd (present now done (select_show (timeline p) (shown p) now)
                     (p\<lparr>shown := last (shown p # skipped (timeline p) (shown p)
                                       (select_show (timeline p) (shown p) now))\<rparr>))"
  using iteration_explicit [OF ok ne iteration_Some_le [OF it ne], of "done" warn] it
  by simp_all

lemma iteration_facts:
  assumes ok: "timeline_ok (timeline p)"
    and it: "iteration now done warn p = Some (acts, p')"
  shows "timeline p' = timeline p" and "shutdown p' = shutdown p"
    and "sorted_wrt (<) (shown p # shown_values acts)"
    and "shown p' = last (shown p # shown_values acts)"
    and "set (shown_values acts) \<subseteq> set (keys (timeline p))"
    and "\<forall>j \<in> set (shown_values acts). j \<le> now"
    and "update_keys acts = [] \<or> update_keys acts = [shown p'] \<and> shown p < shown p' \<and> done"
    and "\<forall>k a. Act (Update k a) \<in> set acts \<longrightarrow>
           (k, a) \<in> set (timeline p) \<and> shown p' = k
           \<and> (\<exists>sk. shown_values acts = sk @ [k] \<and> (\<forall>j \<in> set sk. shown p < j \<and> j < k))"
proof -
  let ?tml = "timeline p"
  let ?show = "select_show ?tml (shown p) now"
  let ?sk = "skipped ?tml (shown p) ?show"
  let ?p1 = "p\<lparr>shown := last (shown p # ?sk)\<rparr>"
  let ?sub = "?show \<noteq> length ?tml \<and> fst (?tml ! ?show) \<le> now \<and> done"
  have all: "timeline p' = timeline p \<and> shutdown p' = shutdown p
    \<and> sorted_wrt (<) (shown p # shown_values acts)
    \<and> shown p' = last (shown p # shown_values acts)
    \<and> set (shown_values acts) \<subseteq> set (keys (timeline p))
    \<and> (\<forall>j \<in> set (shown_values acts). j \<le> now)
    \<and> (update_keys acts = [] \<or> update_keys acts = [shown p'] \<and> shown p < shown p' \<and> done)
    \<and> (\<forall>k a. Act (Update k a) \<in> set acts \<longrightarrow>
           (k, a) \<in> set (timeline p) \<and> shown p' = k
           \<and> (\<exists>sk. shown_values acts = sk @ [k] \<and> (\<forall>j \<in> set sk. shown p < j \<and> j < k)))"
  proof (cases "timeline p = []")
    case True
    with it have "acts = cv_wait" "p' = p" by (simp_all add: iteration_def)
    then show ?thesis by (simp add: cv_wait_def)
  next
    case ne: False
    have acts: "acts = concat (map (skip_actions warn now) ?sk) @ fst (present now done ?show ?p1)"
      and p': "p' = snd (present now done ?show ?p1)"
      using iteration_Some [OF ok ne it] by simp_all
    have sv: "shown_values acts = ?sk @ (if ?sub then [fst (?tml ! ?show)] else [])"
      by (simp add: acts shown_values_append shown_values_skips present_shown_values)
    have uk: "update_keys acts = (if ?sub then [fst (?tml ! ?show)] else [])"
      by (simp add: acts update_keys_append update_keys_skips present_update_keys)
    have sh': "shown p' = (if ?sub then fst (?tml ! ?show) else last (shown p # ?sk))"
      by (simp add: p' present_shown)
    have fr: "timeline p' = timeline p \<and> shutdown p' = shutdown p"
      using present_frame [of now "done" ?show ?p1] by (simp add: p')
    have sorted_sk: "sorted_wrt (<) (shown p # ?sk)"
      using skipped_sorted_from [OF ok] .
    have le_now: "\<forall>j \<in> set ?sk. j \<le> now"
      using skipped_le_now [OF ok] by blast
    have sub_keys: "set ?sk \<subseteq> set (keys ?tml)" by (rule skipped_subset)
    show ?thesis
    proof (cases ?sub)
      case False
      have noupd: "\<forall>k a. Act (Update k a) \<notin> set acts"
        using False unfolding acts update_mem_after_skips present_update_mem by auto
      have "shown_values acts = ?sk" "update_keys acts = []"
           "shown p' = last (shown p # ?sk)"
        using sv uk sh' unfolding if_not_P [OF False] by simp_all
      then show ?thesis
        using fr sorted_sk le_now sub_keys noupd by simp
    next
      case True
      then have len: "?show < length ?tml"
        using select_show_le [of ?tml "shown p" now] by simp
      from True have due: "fst (?tml ! ?show) \<le> now" by simp
      have gt: "shown p < fst (?tml ! ?show)"
        using select_show_due [OF ok len due] by (rule conjunct1)
      have below: "\<forall>j \<in> set ?sk. shown p < j \<and> j < fst (?tml ! ?show)"
        using skipped_set [OF ok len, of "shown p"] by auto
      have mem: "?tml ! ?show \<in> set ?tml" using len by simp
      then have kmem: "fst (?tml ! ?show) \<in> set (keys ?tml)" by (simp add: keys_def)
      have srt: "sorted_wrt (<) (shown p # ?sk @ [fst (?tml ! ?show)])"
        using sorted_sk below gt by (simp add: sorted_wrt_append)
      have upd: "\<forall>k a. Act (Update k a) \<in> set acts \<longrightarrow>
                   k = fst (?tml ! ?show) \<and> a = snd (?tml ! ?show)"
        unfolding acts update_mem_after_skips present_update_mem by simp
      have pair: "(fst (?tml ! ?show), snd (?tml ! ?show)) \<in> set ?tml" using mem by simp
      have eqs: "shown_values acts = ?sk @ [fst (?tml ! ?show)]"
           "update_keys acts = [fst (?tml ! ?show)]"
           "shown p' = fst (?tml ! ?show)"
        using sv uk sh' unfolding if_P [OF True] by simp_all
      have dn: "done" using True by simp
      have last_eq: "last (shown p # shown_values acts) = shown p'"
        by (simp add: eqs)
      have c8: "\<forall>k a. Act (Update k a) \<in> set acts \<longrightarrow>
           (k, a) \<in> set (timeline p) \<and> shown p' = k
           \<and> (\<exists>sk. shown_values acts = sk @ [k] \<and> (\<forall>j \<in> set sk. shown p < j \<and> j < k))"
      proof (intro allI impI)
        fix k a assume "Act (Update k a) \<in> set acts"
        with upd have k: "k = fst (?tml ! ?show)" and a: "a = snd (?tml ! ?show)"
          by blast+
        have 1: "(k, a) \<in> set (timeline p)" unfolding k a using pair .
        have 2: "shown p' = k" unfolding k using eqs(3) .
        have 3: "shown_values acts = ?sk @ [k]" unfolding k using eqs(1) .
        have 4: "\<forall>j \<in> set ?sk. shown p < j \<and> j < k" unfolding k using below .
        from 1 2 3 4 show "(k, a) \<in> set (timeline p) \<and> shown p' = k
           \<and> (\<exists>sk. shown_values acts = sk @ [k] \<and> (\<forall>j \<in> set sk. shown p < j \<and> j < k))"
          by blast
      qed
      have c3: "sorted_wrt (<) (shown p # shown_values acts)"
        using srt by (simp add: eqs)
      have c5: "set (shown_values acts) \<subseteq> set (keys (timeline p))"
        using sub_keys kmem by (simp add: eqs)
      have c6: "\<forall>j \<in> set (shown_values acts). j \<le> now"
        using le_now due by (simp add: eqs)
      have c7: "update_keys acts = [shown p'] \<and> shown p < shown p' \<and> done"
        using gt dn by (simp add: eqs)
      show ?thesis
        using fr c3 last_eq c5 c6 c7 c8 by simp
    qed
  qed
  from all show "timeline p' = timeline p" by blast
  from all show "shutdown p' = shutdown p" by blast
  from all show "sorted_wrt (<) (shown p # shown_values acts)" by blast
  from all show "shown p' = last (shown p # shown_values acts)" by blast
  from all show "set (shown_values acts) \<subseteq> set (keys (timeline p))" by blast
  from all show "\<forall>j \<in> set (shown_values acts). j \<le> now" by blast
  from all show "update_keys acts = [] \<or> update_keys acts = [shown p'] \<and> shown p < shown p' \<and> done"
    by blast
  from all show "\<forall>k a. Act (Update k a) \<in> set acts \<longrightarrow>
           (k, a) \<in> set (timeline p) \<and> shown p' = k
           \<and> (\<exists>sk. shown_values acts = sk @ [k] \<and> (\<forall>j \<in> set sk. shown p < j \<and> j < k))"
    by blast
qed

subsection \<open>Executions\<close>

lemma env_step_facts:
  assumes ok: "timeline_ok (timeline p)"
    and st: "env_step e p = Some (acts, p')"
  shows "shutdown p' = shutdown p"
    and "sorted_wrt (<) (shown p # shown_values acts)"
    and "shown p' = last (shown p # shown_values acts)"
    and "set (shown_values acts) \<subseteq> set (keys (timeline p))"
    and "update_keys acts = [] \<or> update_keys acts = [shown p'] \<and> shown p < shown p'"
    and "\<forall>k a. Act (Update k a) \<in> set acts \<longrightarrow>
           (k, a) \<in> set (timeline p) \<and> shown p' = k
           \<and> (\<exists>sk. shown_values acts = sk @ [k] \<and> (\<forall>j \<in> set sk. shown p < j \<and> j < k))"
proof -
  have "shutdown p' = shutdown p
    \<and> sorted_wrt (<) (shown p # shown_values acts)
    \<and> shown p' = last (shown p # shown_values acts)
    \<and> set (shown_values acts) \<subseteq> set (keys (timeline p))
    \<and> (update_keys acts = [] \<or> update_keys acts = [shown p'] \<and> shown p < shown p')
    \<and> (\<forall>k a. Act (Update k a) \<in> set acts \<longrightarrow>
           (k, a) \<in> set (timeline p) \<and> shown p' = k
           \<and> (\<exists>sk. shown_values acts = sk @ [k] \<and> (\<forall>j \<in> set sk. shown p < j \<and> j < k)))"
  proof (cases e)
    case (Set_timeline tml)
    with st have "p' = p\<lparr>timeline := tml\<rparr>"
      and "acts = [Lock, Act (Store_timeline tml), Unlock, Act Notify_all]
           \<or> acts = [Lock, Act (Store_timeline tml), Unlock]"
      by (auto simp: set_timeline_def Let_def split: if_splits)
    then show ?thesis by auto
  next
    case (Iterate now d warn)
    show ?thesis
    proof (cases "shutdown p")
      case True
      with st Iterate have "acts = []" "p' = p" by (simp_all add: player_thread_step_def)
      then show ?thesis by simp
    next
      case False
      with st Iterate have it: "iteration now d warn p = Some (acts, p')"
        by (simp add: player_thread_step_def)
      show ?thesis
        using iteration_facts [OF ok it] by blast
    qed
  qed
  then show "shutdown p' = shutdown p"
    and "sorted_wrt (<) (shown p # shown_values acts)"
    and "shown p' = last (shown p # shown_values acts)"
    and "set (shown_values acts) \<subseteq> set (keys (timeline p))"
    and "update_keys acts = [] \<or> update_keys acts = [shown p'] \<and> shown p < shown p'"
    and "\<forall>k a. Act (Update k a) \<in> set acts \<longrightarrow>
           (k, a) \<in> set (timeline p) \<and> shown p' = k
           \<and> (\<exists>sk. shown_values acts = sk @ [k] \<and> (\<forall>j \<in> set sk. shown p < j \<and> j < k))"
    by blast+
qed

lemma env_step_shown_le:
  assumes "timeline_ok (timeline p)" "env_step e p = Some (acts, p')"
  shows "shown p \<le> shown p'"
  using env_step_facts(2,3) [OF assms]
    sorted_less_le_last [of "shown p # shown_values acts" "shown p"]
  by simp

lemma env_step_timeline_ok:
  assumes "timeline_ok (timeline p)" "timelines_ok [e]" "env_step e p = Some (acts, p')"
  shows "timeline_ok (timeline p')"
proof (cases e)
  case (Set_timeline tml)
  with assms show ?thesis by (auto simp: set_timeline_def Let_def split: if_splits)
next
  case (Iterate now d warn)
  show ?thesis
  proof (cases "shutdown p")
    case True
    with assms Iterate show ?thesis by (simp add: player_thread_step_def)
  next
    case False
    with assms Iterate have "iteration now d warn p = Some (acts, p')"
      by (simp add: player_thread_step_def)
    from iteration_facts(1) [OF assms(1) this] assms(1) show ?thesis by simp
  qed
qed

lemma timelines_ok_Cons: "timelines_ok (e # es) \<longleftrightarrow> timelines_ok [e] \<and> timelines_ok es"
  by (cases e) simp_all

lemma run_Cons_Some:
  "run (e # es) p = Some log \<longleftrightarrow>
     (\<exists>acts p' log'. env_step e p = Some (acts, p') \<and> run es p' = Some log'
        \<and> log = \<lparr>input = e, pre = p, ops = acts, post = p'\<rparr> # log')"
  by (auto split: option.splits)

lemma run_steps:
  "timeline_ok (timeline p) \<Longrightarrow> timelines_ok es \<Longrightarrow> run es p = Some log \<Longrightarrow>
   \<forall>st \<in> set log. timeline_ok (timeline (pre st))
      \<and> env_step (input st) (pre st) = Some (ops st, post st) \<and> input st \<in> set es"
proof (induction es arbitrary: p log)
  case Nil
  then show ?case by simp
next
  case (Cons e es)
  from Cons.prems(3) obtain acts p' log' where
    st: "env_step e p = Some (acts, p')" and r: "run es p' = Some log'"
    and log: "log = \<lparr>input = e, pre = p, ops = acts, post = p'\<rparr> # log'"
    unfolding run_Cons_Some by blast
  from Cons.prems(2) have e: "timelines_ok [e]" and es: "timelines_ok es"
    using timelines_ok_Cons by blast+
  have ok': "timeline_ok (timeline p')"
    using env_step_timeline_ok [OF Cons.prems(1) e st] .
  from Cons.IH [OF ok' es r] Cons.prems(1) st show ?case
    by (auto simp: log)
qed

lemma run_shown_sorted:
  "timeline_ok (timeline p) \<Longrightarrow> timelines_ok es \<Longrightarrow> run es p = Some log \<Longrightarrow>
   sorted_wrt (<) (shown p # shown_values (concat (map ops log)))
   \<and> sorted (shown p # map (\<lambda>st. shown (post st)) log)"
proof (induction es arbitrary: p log)
  case Nil
  then show ?case by simp
next
  case (Cons e es)
  from Cons.prems(3) obtain acts p' log' where
    st: "env_step e p = Some (acts, p')" and r: "run es p' = Some log'"
    and log: "log = \<lparr>input = e, pre = p, ops = acts, post = p'\<rparr> # log'"
    unfolding run_Cons_Some by blast
  from Cons.prems(2) have e: "timelines_ok [e]" and es: "timelines_ok es"
    using timelines_ok_Cons by blast+
  have ok': "timeline_ok (timeline p')"
    using env_step_timeline_ok [OF Cons.prems(1) e st] .
  note ih = Cons.IH [OF ok' es r]
  note f = env_step_facts [OF Cons.prems(1) st]
  have 0: "sorted_wrt (<) (last (shown p # shown_values acts)
                             # shown_values (concat (map ops log')))"
    using ih unfolding f(3) by (rule conjunct1)
  have 1: "sorted_wrt (<) (shown p # shown_values acts @ shown_values (concat (map ops log')))"
    using sorted_less_chain [OF f(2) 0] .
  have 2: "shown p \<le> shown p'" using env_step_shown_le [OF Cons.prems(1) st] .
  have 3: "sorted (shown p' # map (\<lambda>st. shown (post st)) log')" using ih by simp
  have 4: "sorted (shown p # shown p' # map (\<lambda>st. shown (post st)) log')"
    using 2 3 by (simp only: sorted2)
  show ?case using 1 4 by (simp add: log shown_values_append)
qed

lemma run_update_keys_sorted:
  "timeline_ok (timeline p) \<Longrightarrow> timelines_ok es \<Longrightarrow> run es p = Some log \<Longrightarrow>
   sorted_wrt (<) (update_keys (concat (map ops log)))
   \<and> (\<forall>k \<in> set (update_keys (concat (map ops log))). shown p < k)"
proof (induction es arbitrary: p log)
  case Nil
  then show ?case by simp
next
  case (Cons e es)
  from Cons.prems(3) obtain acts p' log' where
    st: "env_step e p = Some (acts, p')" and r: "run es p' = Some log'"
    and log: "log = \<lparr>input = e, pre = p, ops = acts, post = p'\<rparr> # log'"
    unfolding run_Cons_Some by blast
  from Cons.prems(2) have e: "timelines_ok [e]" and es: "timelines_ok es"
    using timelines_ok_Cons by blast+
  have ok': "timeline_ok (timeline p')"
    using env_step_timeline_ok [OF Cons.prems(1) e st] .
  note ih = Cons.IH [OF ok' es r]
  note f = env_step_facts [OF Cons.prems(1) st]
  have le: "shown p \<le> shown p'" using env_step_shown_le [OF Cons.prems(1) st] .
  let ?rest = "update_keys (concat (map ops log'))"
  have above: "\<forall>k \<in> set ?rest. shown p < k" using ih le by auto
  have eq: "update_keys (concat (map ops log)) = update_keys acts @ ?rest"
    by (simp add: log update_keys_append)
  from f(5) show ?case
  proof
    assume "update_keys acts = []"
    then show ?thesis using ih above by (simp add: eq)
  next
    assume u: "update_keys acts = [shown p'] \<and> shown p < shown p'"
    then show ?thesis using ih above by (simp add: eq)
  qed
qed

lemma run_defined:
  "timeline_ok (timeline p) \<Longrightarrow> timelines_ok es \<Longrightarrow> shown p \<le> t \<Longrightarrow> clock_ok t es \<Longrightarrow>
   run es p \<noteq> None"
proof (induction es arbitrary: p t)
  case Nil
  then show ?case by simp
next
  case (Cons e es)
  from Cons.prems(2) have e: "timelines_ok [e]" and es: "timelines_ok es"
    using timelines_ok_Cons by blast+
  show ?case
  proof (cases e)
    case (Set_timeline tml)
    obtain acts p' where st: "env_step e p = Some (acts, p')"
      using Set_timeline by (cases "set_timeline tml p") simp
    have ok': "timeline_ok (timeline p')"
      using env_step_timeline_ok [OF Cons.prems(1) e st] .
    have "shown p' = shown p"
      using st Set_timeline by (auto simp: set_timeline_def Let_def split: if_splits)
    then have "run es p' \<noteq> None"
      using Cons.IH [OF ok' es, of t] Cons.prems(3,4) Set_timeline by simp
    then show ?thesis using st by auto
  next
    case (Iterate now d warn)
    with Cons.prems(4) have now: "t \<le> now" and ck: "clock_ok now es" by simp_all
    have le: "shown p \<le> now" using Cons.prems(3) now by simp
    have "env_step e p \<noteq> None"
      using iteration_defined [OF Cons.prems(1) le] Iterate
      by (simp add: player_thread_step_def)
    then obtain acts p' where st: "env_step e p = Some (acts, p')" by auto
    have ok': "timeline_ok (timeline p')"
      using env_step_timeline_ok [OF Cons.prems(1) e st] .
    have "shown p' \<le> now"
    proof (cases "shutdown p")
      case True
      with st Iterate have "p' = p" by (simp add: player_thread_step_def)
      then show ?thesis using le by simp
    next
      case False
      with st Iterate have it: "iteration now d warn p = Some (acts, p')"
        by (simp add: player_thread_step_def)
      from iteration_facts(4,6) [OF Cons.prems(1) it] le show ?thesis
        by (cases "shown_values acts = []") simp_all
    qed
    then have "run es p' \<noteq> None" using Cons.IH [OF ok' es _ ck] by simp
    then show ?thesis using st by auto
  qed
qed

lemma iteration_skips_due:
  assumes ok: "timeline_ok (timeline p)" and ne: "timeline p \<noteq> []"
    and it: "iteration now done warn p = Some (acts, p')"
    and sk: "skipped (timeline p) (shown p) (select_show (timeline p) (shown p) now) \<noteq> []"
  shows "select_show (timeline p) (shown p) now < length (timeline p)
         \<and> fst (timeline p ! select_show (timeline p) (shown p) now) \<le> now
         \<and> shown p < fst (timeline p ! select_show (timeline p) (shown p) now)"
proof -
  let ?tml = "timeline p"
  let ?show = "select_show ?tml (shown p) now"
  have le: "upper_bound ?tml (shown p) \<le> ?show" using iteration_Some_le [OF it ne] .
  have neq: "?show \<noteq> upper_bound ?tml now"
    using select_show_none_skipped [OF ok le] sk by blast
  then have c: "upper_bound ?tml now \<noteq> 0 \<and> shown p < fst (?tml ! (upper_bound ?tml now - 1))"
    by (auto simp: select_show_cases split: if_splits)
  then have eq: "?show = upper_bound ?tml now - 1" by (simp add: select_show_cases)
  have lt: "?show < upper_bound ?tml now" using c eq by linarith
  then have len: "?show < length ?tml" using upper_bound_le [of ?tml now] by linarith
  have due: "fst (?tml ! ?show) \<le> now" using upper_bound_iff [OF ok len, of now] lt by simp
  have "shown p < fst (?tml ! ?show)" using c unfolding eq [symmetric] by (rule conjunct2)
  with len due show ?thesis by blast
qed

lemma iteration_busy:
  assumes ok: "timeline_ok (timeline p)"
    and it: "iteration now False warn p = Some (acts, p')"
    and ch: "shown p' \<noteq> shown p"
  shows "shown p < shown p' \<and> shown p' \<in> set (keys (timeline p))
         \<and> (\<exists>k \<in> set (keys (timeline p)). shown p' < k \<and> k \<le> now)"
proof -
  let ?tml = "timeline p"
  let ?show = "select_show ?tml (shown p) now"
  let ?sk = "skipped ?tml (shown p) ?show"
  have ne: "?tml \<noteq> []"
  proof
    assume "?tml = []"
    with it have "p' = p" by (simp add: iteration_def)
    with ch show False by simp
  qed
  have "p' = snd (present now False ?show (p\<lparr>shown := last (shown p # ?sk)\<rparr>))"
    using iteration_Some(2) [OF ok ne it] .
  then have sh': "shown p' = last (shown p # ?sk)" by (simp add: present_shown)
  with ch have sk: "?sk \<noteq> []" by auto
  then have mem: "shown p' \<in> set ?sk" using sh' by simp
  from iteration_skips_due [OF ok ne it sk]
  have len: "?show < length ?tml" and due: "fst (?tml ! ?show) \<le> now" by blast+
  from mem skipped_set [OF ok len, of "shown p"]
  have "shown p' \<in> set (keys ?tml)" "shown p < shown p'" "shown p' < fst (?tml ! ?show)"
    by auto
  moreover have "fst (?tml ! ?show) \<in> set (keys ?tml)" using len by (simp add: keys_def)
  ultimately show ?thesis using due by blast
qed

lemma always_busy_mem: "always_busy es \<Longrightarrow> Iterate now d w \<in> set es \<Longrightarrow> \<not> d"
proof (induction es)
  case Nil
  then show ?case by simp
next
  case (Cons e es)
  then show ?case by (cases e) auto
qed

lemma update_keys_concat:
  "(\<forall>x \<in> set xs. update_keys x = []) \<Longrightarrow> update_keys (concat xs) = []"
  by (induction xs) (simp_all add: update_keys_append)

lemma env_step_busy:
  assumes ok: "timeline_ok (timeline p)"
    and st: "env_step e p = Some (acts, p')"
    and busy: "\<forall>now d w. e = Iterate now d w \<longrightarrow> \<not> d"
  shows "update_keys acts = []"
    and "shown p' \<noteq> shown p \<longrightarrow>
           (\<exists>now d w. e = Iterate now d w \<and> shown p' \<in> set (keys (timeline p))
              \<and> (\<exists>k \<in> set (keys (timeline p)). shown p' < k \<and> k \<le> now))"
proof -
  have "update_keys acts = [] \<and> (shown p' \<noteq> shown p \<longrightarrow>
           (\<exists>now d w. e = Iterate now d w \<and> shown p' \<in> set (keys (timeline p))
              \<and> (\<exists>k \<in> set (keys (timeline p)). shown p' < k \<and> k \<le> now)))"
  proof (cases e)
    case (Set_timeline tml)
    with st have "p' = p\<lparr>timeline := tml\<rparr>"
      and "acts = [Lock, Act (Store_timeline tml), Unlock, Act Notify_all]
           \<or> acts = [Lock, Act (Store_timeline tml), Unlock]"
      by (auto simp: set_timeline_def Let_def split: if_splits)
    then show ?thesis by auto
  next
    case (Iterate now d warn)
    with busy have d: "\<not> d" by blast
    show ?thesis
    proof (cases "shutdown p")
      case True
      with st Iterate have "acts = []" "p' = p" by (simp_all add: player_thread_step_def)
      then show ?thesis by simp
    next
      case False
      with st Iterate d have it: "iteration now False warn p = Some (acts, p')"
        by (simp add: player_thread_step_def)
      have 1: "update_keys acts = []" using iteration_facts(7) [OF ok it] by simp
      have 2: "shown p' \<noteq> shown p \<longrightarrow> shown p' \<in> set (keys (timeline p))
              \<and> (\<exists>k \<in> set (keys (timeline p)). shown p' < k \<and> k \<le> now)"
        using iteration_busy [OF ok it] by blast
      from 1 2 Iterate show ?thesis by blast
    qed
  qed
  then show "update_keys acts = []"
    and "shown p' \<noteq> shown p \<longrightarrow>
           (\<exists>now d w. e = Iterate now d w \<and> shown p' \<in> set (keys (timeline p))
              \<and> (\<exists>k \<in> set (keys (timeline p)). shown p' < k \<and> k \<le> now))"
    by blast+
qed

lemma select_show_end:
  assumes "select_show tml sh now = length tml"
  shows "select_show tml sh now = upper_bound tml now"
proof (rule ccontr)
  assume "select_show tml sh now \<noteq> upper_bound tml now"
  then have "upper_bound tml now \<noteq> 0" "select_show tml sh now = upper_bound tml now - 1"
    by (auto simp: select_show_cases split: if_splits)
  then have "select_show tml sh now < length tml"
    using upper_bound_le [of tml now] by linarith
  with assms show False by simp
qed

lemma upper_bound_all_past:
  assumes ok: "timeline_ok tml" and past: "\<forall>k \<in> set (keys tml). k \<le> now"
  shows "upper_bound tml now = length tml"
proof (rule ccontr)
  assume "upper_bound tml now \<noteq> length tml"
  then have len: "upper_bound tml now < length tml"
    using upper_bound_le [of tml now] by linarith
  then have "fst (tml ! upper_bound tml now) \<in> set (keys tml)" by (simp add: keys_def)
  with past have "fst (tml ! upper_bound tml now) \<le> now" by blast
  with upper_bound_iff [OF ok len, of now] show False by simp
qed

lemma skipped_butlast:
  "skipped tml sh (length tml - 1) = filter (\<lambda>k. sh < k) (keys (butlast tml))"
  by (simp add: skipped_def butlast_conv_take)

lemma iteration_skips_present:
  fixes p :: "'a player" and now :: steady_time and "done" warn :: bool
  fixes tml "show" sk p1
  defines "tml \<equiv> timeline p"
    and "show \<equiv> select_show (timeline p) (shown p) now"
    and "sk \<equiv> skipped (timeline p) (shown p) (select_show (timeline p) (shown p) now)"
    and "p1 \<equiv> p\<lparr>shown := last (shown p # skipped (timeline p) (shown p)
                                   (select_show (timeline p) (shown p) now))\<rparr>"
  assumes ok: "timeline_ok (timeline p)" and ne: "timeline p \<noteq> []" and le: "shown p \<le> now"
  shows "iteration now done warn p =
           Some (concat (map (skip_actions warn now) sk) @ fst (present now done show p1),
                 snd (present now done show p1))
     \<and> sorted_wrt (<) (shown p # sk)
     \<and> (show < length tml \<longrightarrow>
           set sk = {k \<in> set (keys tml). shown p < k \<and> k < fst (tml ! show)})
     \<and> (show = length tml \<longrightarrow> sk = [])
     \<and> (\<forall>k \<in> set sk. k \<le> now
           \<and> (\<forall>a. Act (Update k a)
                  \<notin> set (concat (map (skip_actions warn now) sk) @ fst (present now done show p1))))
     \<and> shown (snd (present now done show p1)) =
          (if show < length tml \<and> fst (tml ! show) \<le> now \<and> done
           then fst (tml ! show) else last (shown p # sk))
     \<and> (show < length tml \<and> fst (tml ! show) \<le> now \<longrightarrow>
           (\<forall>k \<in> set (keys tml). k \<le> now \<longrightarrow> k \<le> fst (tml ! show)))
     \<and> ((\<forall>k \<in> set (keys tml). k \<le> now) \<and> shown p < fst (last tml) \<longrightarrow>
           show = length tml - 1
           \<and> sk = filter (\<lambda>k. shown p < k) (keys (butlast tml))
           \<and> (done \<longrightarrow>
                 fst (present now done show p1)
                   = [Act (Done_yet True), Act (Update (fst (last tml)) (snd (last tml))),
                      Act (Set_shown (fst (last tml)))]
                 \<and> shown (snd (present now done show p1)) = fst (last tml)))"
proof (intro conjI)
  have ub: "upper_bound tml (shown p) \<le> show"
    unfolding tml_def show_def using upper_bound_le_select [OF ok le] .
  have show_le: "show \<le> length tml"
    unfolding tml_def show_def by (rule select_show_le)
  show "iteration now done warn p =
           Some (concat (map (skip_actions warn now) sk) @ fst (present now done show p1),
                 snd (present now done show p1))"
    unfolding sk_def show_def p1_def
    using iteration_explicit [OF ok ne ub [unfolded tml_def show_def]] .
  show "sorted_wrt (<) (shown p # sk)"
    unfolding sk_def using skipped_sorted_from [OF ok] .
  show set_sk: "show < length tml \<longrightarrow>
           set sk = {k \<in> set (keys tml). shown p < k \<and> k < fst (tml ! show)}"
    unfolding sk_def tml_def show_def using skipped_set [OF ok] by blast
  show "show = length tml \<longrightarrow> sk = []"
  proof
    assume "show = length tml"
    then have "select_show (timeline p) (shown p) now = upper_bound (timeline p) now"
      unfolding show_def tml_def by (rule select_show_end)
    then show "sk = []"
      unfolding sk_def
      using select_show_none_skipped [OF ok ub [unfolded tml_def show_def]] by blast
  qed
  show "\<forall>k \<in> set sk. k \<le> now
           \<and> (\<forall>a. Act (Update k a)
                  \<notin> set (concat (map (skip_actions warn now) sk) @ fst (present now done show p1)))"
  proof (intro ballI conjI allI)
    fix k assume k: "k \<in> set sk"
    then show "k \<le> now" unfolding sk_def using skipped_le_now [OF ok] by blast
    fix a
    show "Act (Update k a)
           \<notin> set (concat (map (skip_actions warn now) sk) @ fst (present now done show p1))"
    proof
      assume "Act (Update k a)
           \<in> set (concat (map (skip_actions warn now) sk) @ fst (present now done show p1))"
      then have "show \<noteq> length (timeline p1) \<and> k = fst (timeline p1 ! show)"
        unfolding update_mem_after_skips present_update_mem by blast
      then have "show < length tml" "k = fst (tml ! show)"
        using show_le by (simp_all add: p1_def tml_def)
      with set_sk k show False by auto
    qed
  qed
  show "shown (snd (present now done show p1)) =
          (if show < length tml \<and> fst (tml ! show) \<le> now \<and> done
           then fst (tml ! show) else last (shown p # sk))"
    using show_le unfolding present_shown by (auto simp: p1_def tml_def sk_def)
  show "show < length tml \<and> fst (tml ! show) \<le> now \<longrightarrow>
           (\<forall>k \<in> set (keys tml). k \<le> now \<longrightarrow> k \<le> fst (tml ! show))"
  proof (intro impI ballI)
    fix k assume a: "show < length tml \<and> fst (tml ! show) \<le> now"
      and k: "k \<in> set (keys tml)" and kn: "k \<le> now"
    from a have len: "select_show (timeline p) (shown p) now < length (timeline p)"
      and due: "fst (timeline p ! select_show (timeline p) (shown p) now) \<le> now"
      by (simp_all add: show_def tml_def)
    from select_show_due [OF ok len due]
    have eq: "show = upper_bound tml now - 1" and pos: "0 < upper_bound tml now"
      by (simp_all add: show_def tml_def)
    from k obtain i where i: "i < length tml" "k = fst (tml ! i)"
      by (auto simp: keys_def in_set_conv_nth)
    then have "i < upper_bound tml now"
      using upper_bound_iff [OF ok, of i now] kn by (simp add: tml_def)
    then have "i \<le> show" using eq by linarith
    then have "i = show \<or> i < show" by linarith
    then show "k \<le> fst (tml ! show)"
      using timeline_ok_nth_less [OF ok, of i "show"] a i by (auto simp: tml_def)
  qed
  show "(\<forall>k \<in> set (keys tml). k \<le> now) \<and> shown p < fst (last tml) \<longrightarrow>
           show = length tml - 1
           \<and> sk = filter (\<lambda>k. shown p < k) (keys (butlast tml))
           \<and> (done \<longrightarrow>
                 fst (present now done show p1)
                   = [Act (Done_yet True), Act (Update (fst (last tml)) (snd (last tml))),
                      Act (Set_shown (fst (last tml)))]
                 \<and> shown (snd (present now done show p1)) = fst (last tml))"
  proof
    assume a: "(\<forall>k \<in> set (keys tml). k \<le> now) \<and> shown p < fst (last tml)"
    have tne: "tml \<noteq> []" using ne by (simp add: tml_def)
    have lst: "last tml = tml ! (length tml - 1)" using tne by (rule last_conv_nth)
    have ubn: "upper_bound tml now = length tml"
      using upper_bound_all_past [OF ok] a by (simp add: tml_def)
    have pos: "length tml \<noteq> 0" using tne by simp
    have sh: "show = length tml - 1"
      using a pos unfolding show_def tml_def [symmetric] select_show_cases ubn lst by simp
    have sk': "sk = filter (\<lambda>k. shown p < k) (keys (butlast tml))"
      using skipped_butlast [of tml "shown p"] sh by (simp add: sk_def show_def tml_def)
    have len: "length tml - 1 < length tml" using pos by simp
    have "last tml \<in> set tml" using tne by simp
    then have "fst (last tml) \<in> set (keys tml)" by (simp add: keys_def)
    with a have due: "fst (last tml) \<le> now" by blast
    have d: "done \<longrightarrow>
                 fst (present now done show p1)
                   = [Act (Done_yet True), Act (Update (fst (last tml)) (snd (last tml))),
                      Act (Set_shown (fst (last tml)))]
                 \<and> shown (snd (present now done show p1)) = fst (last tml)"
    proof -
      have "0 < length tml" using tne by simp
      then have neq: "length tml - Suc 0 \<noteq> length tml" by linarith
      have due': "\<not> now < fst (tml ! (length tml - Suc 0))" using due lst by simp
      show ?thesis
        unfolding sh lst using neq due'
        by (simp add: present_def p1_def tml_def [symmetric])
    qed
    from sh sk' d show "show = length tml - 1
           \<and> sk = filter (\<lambda>k. shown p < k) (keys (butlast tml))
           \<and> (done \<longrightarrow>
                 fst (present now done show p1)
                   = [Act (Done_yet True), Act (Update (fst (last tml)) (snd (last tml))),
                      Act (Set_shown (fst (last tml)))]
                 \<and> shown (snd (present now done show p1)) = fst (last tml))" by blast
  qed
qed

lemma skip_actions_explicit:
  "skip_actions warn now =
     (\<lambda>k. (if warn then [Act (Warn k ((now - k) sdiv 1000000))] else []) @ [Act (Set_shown k)])"
  by (rule ext) (simp add: skip_actions_def ticks_per_ms_def)

lemma present_explicit:
  "show \<le> length (timeline p) \<Longrightarrow>
   present now done show p =
     (if show = length (timeline p) then [Unlock, Act Wait, Lock]
      else if now < fst (timeline p ! show)
        then [Unlock, Act (Wait_until (fst (timeline p ! show))), Lock]
      else if \<not> done
        then [Act (Done_yet False), Unlock, Act (Wait_until (now + 5000000)), Lock]
      else [Act (Done_yet True),
            Act (Update (fst (timeline p ! show)) (snd (timeline p ! show))),
            Act (Set_shown (fst (timeline p ! show)))],
      p\<lparr>shown := (if show < length (timeline p) \<and> fst (timeline p ! show) \<le> now \<and> done
                   then fst (timeline p ! show) else shown p)\<rparr>)"
  by (auto simp: present_def cv_wait_def wait_until_def ticks_per_ms_def)

subsection \<open>The mutex\<close>

lemma lock_trace_append:
  "lock_trace h (xs @ ys) = lock_trace h xs @ lock_trace (lock_after h xs) ys"
  by (induction h xs rule: lock_trace.induct) simp_all

lemma lock_after_append: "lock_after h (xs @ ys) = lock_after (lock_after h xs) ys"
  by (induction h xs rule: lock_after.induct) simp_all

lemma skip_loop_acts:
  "skip_loop warn tml now show s sh = Some (acts, sh') \<Longrightarrow>
   \<exists>ks. acts = concat (map (skip_actions warn now) ks)"
proof (induction warn tml now "show" s sh arbitrary: acts sh' rule: skip_loop.induct)
  case (1 warn tml now "show" s sh)
  show ?case
  proof (cases "s = show")
    case True
    with "1.prems" have "acts = []" by (simp add: skip_loop.simps)
    then have "acts = concat (map (skip_actions warn now) [])" by simp
    then show ?thesis by blast
  next
    case False
    have len: "\<not> length tml \<le> s"
      using "1.prems" False by (subst (asm) skip_loop.simps) (simp split: if_splits)
    from "1.prems" False len obtain acts' sh'' where
      rec: "skip_loop warn tml now show (Suc s) (fst (tml ! s)) = Some (acts', sh'')"
      and acts: "acts = skip_actions warn now (fst (tml ! s)) @ acts'"
      by (subst (asm) skip_loop.simps) (auto split: option.splits)
    from "1.IH" [OF False len rec] obtain ks where
      "acts' = concat (map (skip_actions warn now) ks)" by blast
    then have "acts = concat (map (skip_actions warn now) (fst (tml ! s) # ks))"
      using acts by simp
    then show ?thesis by blast
  qed
qed

lemma skips_locked:
  "lock_after True (concat (map (skip_actions warn now) ks)) = True
   \<and> (\<forall>hc \<in> set (lock_trace True (concat (map (skip_actions warn now) ks))).
         fst hc \<and> \<not> is_wait (snd hc))"
  by (induction ks) (auto simp: skip_actions_def lock_trace_append lock_after_append)

lemma present_locked:
  "lock_after True (fst (present now done show p)) = True
   \<and> (\<forall>hc \<in> set (lock_trace True (fst (present now done show p))).
         fst hc \<longleftrightarrow> \<not> is_wait (snd hc))"
  by (simp add: present_def cv_wait_def wait_until_def)

lemma act_in_lock_trace:
  "Act c \<in> set xs \<Longrightarrow> \<exists>h'. (h', c) \<in> set (lock_trace h xs)"
  by (induction h xs rule: lock_trace.induct) auto

section \<open>The claims\<close>

subsection \<open>\<^verbatim>\<open>set_timeline\<close>\<close>

text \<open>
  Claim C9.  For every call \<^verbatim>\<open>set_timeline(tl)\<close>, with any timeline, empty or not,
  the only field of the player that changes is \<^verbatim>\<open>timeline\<close>: \<^verbatim>\<open>shown\<close>, the result
  of \<^verbatim>\<open>last_shown()\<close> and \<^verbatim>\<open>shutdown\<close> are after the call what they were before it.
\<close>

theorem set_timeline_changes_timeline_only:
  "snd (set_timeline tml p) = p\<lparr>timeline := tml\<rparr>
   \<and> shown (snd (set_timeline tml p)) = shown p
   \<and> shutdown (snd (set_timeline tml p)) = shutdown p
   \<and> last_shown (snd (set_timeline tml p)) = last_shown p"
  by (simp add: set_timeline_def last_shown_def Let_def)

text \<open>
  Claim C2, as the spec states it, fails: \<^verbatim>\<open>set_timeline\<close> with an empty timeline
  wakes nobody, although the keys of the player's timeline \<open>{10}\<close> differ from the
  keys of the new one.
\<close>

theorem set_timeline_empty_no_wakeup:
  "set (keys ([] :: string Timeline))
     \<noteq> set (keys (timeline \<lparr>timeline = [(10, ''A'')], shown = 0, shutdown = False\<rparr>))
   \<and> Act Notify_all \<notin> set (fst (set_timeline []
                \<lparr>timeline = [(10, ''A'')], shown = 0, shutdown = False\<rparr>))"
  by (simp add: keys_def set_timeline_def same_keys_def)

text \<open>
  Claim C2, amended.  For every call \<^verbatim>\<open>set_timeline(tl)\<close> the new timeline is stored
  in one step under the mutex (the call takes the mutex, stores \<open>tl\<close>, releases the
  mutex, and changes nothing but \<^verbatim>\<open>timeline\<close>), and the player thread is woken,
  after the mutex is released, if and only if \<open>tl\<close> is not empty and its set of keys
  differs from that of the player's current timeline.  With the same keys and other
  atoms, or with an empty \<open>tl\<close>, nobody is woken.
\<close>

theorem set_timeline_wakes_iff:
  assumes "timeline_ok tml" and "timeline_ok (timeline p)"
  shows "fst (set_timeline tml p)
           = [Lock, Act (Store_timeline tml), Unlock]
             @ (if tml \<noteq> [] \<and> set (keys tml) \<noteq> set (keys (timeline p))
                then [Act Notify_all] else [])
         \<and> lock_trace False (fst (set_timeline tml p))
           = (True, Store_timeline tml)
             # (if tml \<noteq> [] \<and> set (keys tml) \<noteq> set (keys (timeline p))
                then [(False, Notify_all)] else [])
         \<and> lock_after False (fst (set_timeline tml p)) = False
         \<and> snd (set_timeline tml p) = p\<lparr>timeline := tml\<rparr>
         \<and> (Act Notify_all \<in> set (fst (set_timeline tml p))
            \<longleftrightarrow> tml \<noteq> [] \<and> set (keys tml) \<noteq> set (keys (timeline p)))
         \<and> timeline (snd (set_timeline tml p)) = tml"
  using keys_eq_iff_set [OF assms]
  by (simp add: set_timeline_def Let_def same_keys_iff)

theorem set_timeline_wakes_iff_witness:
  "timeline_ok [(10, ''B''), (20, ''C'')]
   \<and> timeline_ok (timeline \<lparr>timeline = [(10, ''A'')], shown = 0, shutdown = False\<rparr>)
   \<and> fst (set_timeline [(10, ''B''), (20, ''C'')]
                \<lparr>timeline = [(10, ''A'')], shown = 0, shutdown = False\<rparr>)
       = [Lock, Act (Store_timeline [(10, ''B''), (20, ''C'')]), Unlock, Act Notify_all]
   \<and> lock_trace False (fst (set_timeline [(10, ''B''), (20, ''C'')]
                \<lparr>timeline = [(10, ''A'')], shown = 0, shutdown = False\<rparr>))
       = [(True, Store_timeline [(10, ''B''), (20, ''C'')]), (False, Notify_all)]
   \<and> Act Notify_all \<in> set (fst (set_timeline [(10, ''B''), (20, ''C'')]
                \<lparr>timeline = [(10, ''A'')], shown = 0, shutdown = False\<rparr>))
   \<and> timeline_ok [(10, ''B'')]
   \<and> fst (set_timeline [(10, ''B'')]
                \<lparr>timeline = [(10, ''A'')], shown = 0, shutdown = False\<rparr>)
       = [Lock, Act (Store_timeline [(10, ''B'')]), Unlock]
   \<and> Act Notify_all \<notin> set (fst (set_timeline [(10, ''B'')]
                \<lparr>timeline = [(10, ''A'')], shown = 0, shutdown = False\<rparr>))"
proof -
  let ?p = "\<lparr>timeline = [(10, ''A'')], shown = 0, shutdown = False\<rparr> :: string player"
  have a: "timeline_ok [(10, ''B''), (20, ''C'')]" by (simp add: timeline_ok_def)
  have b: "timeline_ok (timeline ?p)" by (simp add: timeline_ok_def)
  have c: "timeline_ok [(10, ''B'')]" by (simp add: timeline_ok_def)
  show ?thesis
    using a b c set_timeline_wakes_iff [OF a b] set_timeline_wakes_iff [OF c b]
    by (simp add: keys_def)
qed

subsection \<open>Executions: \<^verbatim>\<open>shown\<close> and the submissions\<close>

text \<open>
  Claim C5.  In every execution of one frame player \<^verbatim>\<open>last_shown()\<close> never
  decreases: the values it has after the successive steps (passes of the loop and
  \<^verbatim>\<open>set_timeline\<close> calls alike) are in non-decreasing order, every assignment to
  \<^verbatim>\<open>shown\<close>, by a skip or by a submission, strictly increases it, and the value
  assigned is a key of the timeline current at that moment.  An execution whose clock
  readings never go back, starting at or after \<^verbatim>\<open>shown\<close>, never runs the skip loop
  past the end of the timeline.
\<close>

theorem shown_monotone:
  assumes "timeline_ok (timeline p)" and "timelines_ok es"
  shows "(shown p \<le> t \<and> clock_ok t es \<longrightarrow> run es p \<noteq> None)
     \<and> (\<forall>log. run es p = Some log \<longrightarrow>
          sorted (last_shown p # map (\<lambda>st. last_shown (post st)) log)
        \<and> sorted_wrt (<) (shown p # shown_values (concat (map ops log)))
        \<and> (\<forall>st \<in> set log. shown (post st) = last (shown (pre st) # shown_values (ops st))
              \<and> (\<forall>k. Act (Set_shown k) \<in> set (ops st) \<longrightarrow>
                     k \<in> set (keys (timeline (pre st)))
                     \<and> shown (pre st) < k \<and> k \<le> shown (post st))))"
proof (intro conjI allI impI)
  assume "shown p \<le> t \<and> clock_ok t es"
  then show "run es p \<noteq> None" using run_defined [OF assms] by blast
next
  fix log assume r: "run es p = Some log"
  from run_shown_sorted [OF assms r]
  show "sorted (last_shown p # map (\<lambda>st. last_shown (post st)) log)"
    by (simp add: last_shown_def)
  from run_shown_sorted [OF assms r]
  show "sorted_wrt (<) (shown p # shown_values (concat (map ops log)))" by blast
  show "\<forall>st \<in> set log. shown (post st) = last (shown (pre st) # shown_values (ops st))
              \<and> (\<forall>k. Act (Set_shown k) \<in> set (ops st) \<longrightarrow>
                     k \<in> set (keys (timeline (pre st)))
                     \<and> shown (pre st) < k \<and> k \<le> shown (post st))"
  proof
    fix st assume "st \<in> set log"
    with run_steps [OF assms r] have ok: "timeline_ok (timeline (pre st))"
      and st: "env_step (input st) (pre st) = Some (ops st, post st)" by blast+
    note f = env_step_facts [OF ok st]
    have "\<forall>k. Act (Set_shown k) \<in> set (ops st) \<longrightarrow>
             k \<in> set (keys (timeline (pre st))) \<and> shown (pre st) < k \<and> k \<le> shown (post st)"
    proof (intro allI impI)
      fix k assume "Act (Set_shown k) \<in> set (ops st)"
      then have k: "k \<in> set (shown_values (ops st))" by (simp add: shown_values_mem)
      then have 1: "k \<in> set (keys (timeline (pre st)))" using f(4) by blast
      have 2: "shown (pre st) < k" using f(2) k by simp
      have "k \<le> last (shown (pre st) # shown_values (ops st))"
        using sorted_less_le_last [OF f(2)] k by simp
      then have 3: "k \<le> shown (post st)" by (simp only: f(3))
      from 1 2 3 show "k \<in> set (keys (timeline (pre st))) \<and> shown (pre st) < k
                       \<and> k \<le> shown (post st)" by blast
    qed
    with f(3) show "shown (post st) = last (shown (pre st) # shown_values (ops st))
              \<and> (\<forall>k. Act (Set_shown k) \<in> set (ops st) \<longrightarrow>
                     k \<in> set (keys (timeline (pre st)))
                     \<and> shown (pre st) < k \<and> k \<le> shown (post st))" by blast
  qed
qed

theorem shown_monotone_witness:
  "timeline_ok (timeline (new_player :: string player))
   \<and> timelines_ok [Set_timeline [(10, ''A''), (20, ''B''), (30, ''C'')], Iterate 25 True True,
        Set_timeline [(10, ''A2''), (20, ''B2''), (30, ''C2'')], Iterate 27 True True,
        Iterate 35 True True]
   \<and> shown (new_player :: string player) \<le> 0
   \<and> clock_ok 0 [Set_timeline [(10, ''A''), (20, ''B''), (30, ''C'')], Iterate 25 True True,
        Set_timeline [(10, ''A2''), (20, ''B2''), (30, ''C2'')], Iterate 27 True True,
        Iterate 35 True True]
   \<and> (\<exists>log. run [Set_timeline [(10, ''A''), (20, ''B''), (30, ''C'')], Iterate 25 True True,
        Set_timeline [(10, ''A2''), (20, ''B2''), (30, ''C2'')], Iterate 27 True True,
        Iterate 35 True True] new_player = Some log
      \<and> map (\<lambda>st. last_shown (post st)) log = [0, 20, 20, 20, 30]
      \<and> shown_values (concat (map ops log)) = [10, 20, 30]
      \<and> sorted (last_shown (new_player :: string player) # map (\<lambda>st. last_shown (post st)) log)
      \<and> sorted_wrt (<) (shown (new_player :: string player)
                          # shown_values (concat (map ops log))))"
proof -
  let ?es = "[Set_timeline [(10, ''A''), (20, ''B''), (30, ''C'')], Iterate 25 True True,
        Set_timeline [(10, ''A2''), (20, ''B2''), (30, ''C2'')], Iterate 27 True True,
        Iterate 35 True True]"
  let ?p = "new_player :: string player"
  have h1: "timeline_ok (timeline ?p)" by (simp add: new_player_def timeline_ok_def)
  have h2: "timelines_ok ?es" by (simp add: timeline_ok_def)
  have h3: "shown ?p \<le> 0 \<and> clock_ok 0 ?es" by (simp add: new_player_def)
  note T = shown_monotone [OF h1 h2, of 0]
  from T h3 have "run ?es ?p \<noteq> None" by blast
  then obtain log where r: "run ?es ?p = Some log" by auto
  have e1: "map (\<lambda>st. last_shown (post st)) (the (run ?es ?p)) = [0, 20, 20, 20, 30]"
    by code_simp
  have e2: "shown_values (concat (map ops (the (run ?es ?p)))) = [10, 20, 30]"
    by code_simp
  from T r have s: "sorted (last_shown ?p # map (\<lambda>st. last_shown (post st)) log)
      \<and> sorted_wrt (<) (shown ?p # shown_values (concat (map ops log)))" by blast
  from e1 e2 r have e: "map (\<lambda>st. last_shown (post st)) log = [0, 20, 20, 20, 30]
      \<and> shown_values (concat (map ops log)) = [10, 20, 30]" by simp
  have ex: "\<exists>log. run ?es ?p = Some log
      \<and> map (\<lambda>st. last_shown (post st)) log = [0, 20, 20, 20, 30]
      \<and> shown_values (concat (map ops log)) = [10, 20, 30]
      \<and> sorted (last_shown ?p # map (\<lambda>st. last_shown (post st)) log)
      \<and> sorted_wrt (<) (shown ?p # shown_values (concat (map ops log)))"
    using r e s by (intro exI [of _ log]) (simp only: simp_thms)
  show ?thesis
    by (intro conjI) (rule h1 h2 h3 [THEN conjunct1] h3 [THEN conjunct2] ex)+
qed

text \<open>
  Claim C6.  The keys passed to the driver's \<^verbatim>\<open>update\<close> over a whole execution of
  one frame player are strictly increasing.
\<close>

theorem submissions_strictly_increasing:
  assumes "timeline_ok (timeline p)" and "timelines_ok es"
  shows "(shown p \<le> t \<and> clock_ok t es \<longrightarrow> run es p \<noteq> None)
     \<and> (\<forall>log. run es p = Some log \<longrightarrow>
          sorted_wrt (<) (update_keys (concat (map ops log))))"
  using run_defined [OF assms] run_update_keys_sorted [OF assms] by blast

theorem submissions_strictly_increasing_witness:
  "timeline_ok (timeline (new_player :: string player))
   \<and> timelines_ok [Set_timeline [(10000000, ''A''), (20000000, ''B''), (30000000, ''C'')],
          Iterate 25000000 True True, Iterate 25000001 True True, Iterate 30000000 True True]
   \<and> shown (new_player :: string player) \<le> 0
   \<and> clock_ok 0 [Set_timeline [(10000000, ''A''), (20000000, ''B''), (30000000, ''C'')],
          Iterate 25000000 True True, Iterate 25000001 True True, Iterate 30000000 True True]
   \<and> (\<exists>log. run [Set_timeline [(10000000, ''A''), (20000000, ''B''), (30000000, ''C'')],
          Iterate 25000000 True True, Iterate 25000001 True True, Iterate 30000000 True True]
            new_player = Some log
        \<and> update_keys (concat (map ops log)) = [20000000, 30000000]
        \<and> sorted_wrt (<) (update_keys (concat (map ops log))))"
proof -
  let ?es = "[Set_timeline [(10000000, ''A''), (20000000, ''B''), (30000000, ''C'')],
          Iterate 25000000 True True, Iterate 25000001 True True, Iterate 30000000 True True]"
  let ?p = "new_player :: string player"
  have h1: "timeline_ok (timeline ?p)" by (simp add: new_player_def timeline_ok_def)
  have h2: "timelines_ok ?es" by (simp add: timeline_ok_def)
  have h4: "shown ?p \<le> 0 \<and> clock_ok 0 ?es" by (simp add: new_player_def)
  note T = submissions_strictly_increasing [OF h1 h2, of 0]
  from T h4 have "run ?es ?p \<noteq> None" by blast
  then obtain log where r: "run ?es ?p = Some log" by auto
  have "update_keys (concat (map ops (the (run ?es ?p)))) = [20000000, 30000000]"
    by code_simp
  with r have e: "update_keys (concat (map ops log)) = [20000000, 30000000]" by simp
  from T r have u: "sorted_wrt (<) (update_keys (concat (map ops log)))" by blast
  have ex: "\<exists>log. run ?es ?p = Some log
        \<and> update_keys (concat (map ops log)) = [20000000, 30000000]
        \<and> sorted_wrt (<) (update_keys (concat (map ops log)))"
    using r e u by (intro exI [of _ log]) (simp only: simp_thms)
  show ?thesis
    by (intro conjI) (rule h1 h2 h4 [THEN conjunct1] h4 [THEN conjunct2] ex)+
qed

text \<open>
  Claim C10.  The player never submits an atom whose key is less than or equal to
  \<^verbatim>\<open>shown\<close>: whenever a pass calls \<^verbatim>\<open>update\<close> with the atom of key \<open>k\<close>, the entry
  is in the timeline current at that pass (so also after a replacement that kept
  realized keys with new atoms), \<open>k\<close> is greater than \<^verbatim>\<open>shown\<close> at the start of the pass
  and than every value the skips of the pass gave it, and \<^verbatim>\<open>shown\<close> is \<open>k\<close> afterwards.
\<close>

theorem never_submits_at_or_below_shown:
  assumes "timeline_ok (timeline p)" and "timelines_ok es"
  shows "(shown p \<le> t \<and> clock_ok t es \<longrightarrow> run es p \<noteq> None)
     \<and> (\<forall>log. run es p = Some log \<longrightarrow>
          (\<forall>st \<in> set log. \<forall>k a. Act (Update k a) \<in> set (ops st) \<longrightarrow>
              (k, a) \<in> set (timeline (pre st)) \<and> shown (pre st) < k
              \<and> (\<exists>sk. shown_values (ops st) = sk @ [k]
                       \<and> (\<forall>j \<in> set sk. shown (pre st) < j \<and> j < k))
              \<and> shown (post st) = k)
        \<and> (\<forall>k \<in> set (update_keys (concat (map ops log))). shown p < k))"
proof (intro conjI allI impI)
  assume "shown p \<le> t \<and> clock_ok t es"
  then show "run es p \<noteq> None" using run_defined [OF assms] by blast
next
  fix log assume r: "run es p = Some log"
  show "\<forall>k \<in> set (update_keys (concat (map ops log))). shown p < k"
    using run_update_keys_sorted [OF assms r] by blast
  show "\<forall>st \<in> set log. \<forall>k a. Act (Update k a) \<in> set (ops st) \<longrightarrow>
              (k, a) \<in> set (timeline (pre st)) \<and> shown (pre st) < k
              \<and> (\<exists>sk. shown_values (ops st) = sk @ [k]
                       \<and> (\<forall>j \<in> set sk. shown (pre st) < j \<and> j < k))
              \<and> shown (post st) = k"
  proof (intro ballI allI impI)
    fix st k a assume "st \<in> set log" and u: "Act (Update k a) \<in> set (ops st)"
    with run_steps [OF assms r] have ok: "timeline_ok (timeline (pre st))"
      and st: "env_step (input st) (pre st) = Some (ops st, post st)" by blast+
    note f = env_step_facts [OF ok st]
    from f(6) u have 1: "(k, a) \<in> set (timeline (pre st))" and 2: "shown (post st) = k"
      and 3: "\<exists>sk. shown_values (ops st) = sk @ [k]
                       \<and> (\<forall>j \<in> set sk. shown (pre st) < j \<and> j < k)" by blast+
    have "k \<in> set (update_keys (ops st))" using u update_keys_mem by blast
    with f(5) 2 have 4: "shown (pre st) < k" by auto
    from 1 2 3 4 show "(k, a) \<in> set (timeline (pre st)) \<and> shown (pre st) < k
              \<and> (\<exists>sk. shown_values (ops st) = sk @ [k]
                       \<and> (\<forall>j \<in> set sk. shown (pre st) < j \<and> j < k))
              \<and> shown (post st) = k" by blast
  qed
qed

theorem never_submits_at_or_below_shown_witness:
  "timeline_ok (timeline (new_player :: string player))
   \<and> timelines_ok [Set_timeline [(10, ''A''), (20, ''B'')], Iterate 12 True True,
          Set_timeline [(5, ''Z''), (10, ''A2''), (20, ''B2'')], Iterate 15 True True,
          Iterate 20 True True]
   \<and> shown (new_player :: string player) \<le> 0
   \<and> clock_ok 0 [Set_timeline [(10, ''A''), (20, ''B'')], Iterate 12 True True,
          Set_timeline [(5, ''Z''), (10, ''A2''), (20, ''B2'')], Iterate 15 True True,
          Iterate 20 True True]
   \<and> (\<exists>log. run [Set_timeline [(10, ''A''), (20, ''B'')], Iterate 12 True True,
          Set_timeline [(5, ''Z''), (10, ''A2''), (20, ''B2'')], Iterate 15 True True,
          Iterate 20 True True] new_player = Some log
        \<and> map ops log = [[Lock, Act (Store_timeline [(10, ''A''), (20, ''B'')]), Unlock, Act Notify_all],
                          [Act (Done_yet True), Act (Update 10 ''A''), Act (Set_shown 10)],
                          [Lock, Act (Store_timeline [(5, ''Z''), (10, ''A2''), (20, ''B2'')]),
                           Unlock, Act Notify_all],
                          [Unlock, Act (Wait_until 20), Lock],
                          [Act (Done_yet True), Act (Update 20 ''B2''), Act (Set_shown 20)]]
        \<and> (\<forall>k \<in> set (update_keys (concat (map ops log))).
              shown (new_player :: string player) < k))"
proof -
  let ?es = "[Set_timeline [(10, ''A''), (20, ''B'')], Iterate 12 True True,
          Set_timeline [(5, ''Z''), (10, ''A2''), (20, ''B2'')], Iterate 15 True True,
          Iterate 20 True True]"
  let ?p = "new_player :: string player"
  have h1: "timeline_ok (timeline ?p)" by (simp add: new_player_def timeline_ok_def)
  have h2: "timelines_ok ?es" by (simp add: timeline_ok_def)
  have h4: "shown ?p \<le> 0 \<and> clock_ok 0 ?es" by (simp add: new_player_def)
  note T = never_submits_at_or_below_shown [OF h1 h2, of 0]
  from T h4 have "run ?es ?p \<noteq> None" by blast
  then obtain log where r: "run ?es ?p = Some log" by auto
  have "map ops (the (run ?es ?p)) = [[Lock, Act (Store_timeline [(10, ''A''), (20, ''B'')]), Unlock, Act Notify_all],
                          [Act (Done_yet True), Act (Update 10 ''A''), Act (Set_shown 10)],
                          [Lock, Act (Store_timeline [(5, ''Z''), (10, ''A2''), (20, ''B2'')]),
                           Unlock, Act Notify_all],
                          [Unlock, Act (Wait_until 20), Lock],
                          [Act (Done_yet True), Act (Update 20 ''B2''), Act (Set_shown 20)]]"
    by code_simp
  with r have e: "map ops log = [[Lock, Act (Store_timeline [(10, ''A''), (20, ''B'')]), Unlock, Act Notify_all],
                          [Act (Done_yet True), Act (Update 10 ''A''), Act (Set_shown 10)],
                          [Lock, Act (Store_timeline [(5, ''Z''), (10, ''A2''), (20, ''B2'')]),
                           Unlock, Act Notify_all],
                          [Unlock, Act (Wait_until 20), Lock],
                          [Act (Done_yet True), Act (Update 20 ''B2''), Act (Set_shown 20)]]"
    by simp
  from T r have u: "\<forall>k \<in> set (update_keys (concat (map ops log))). shown ?p < k" by blast
  have ex: "\<exists>log. run ?es ?p = Some log
        \<and> map ops log = [[Lock, Act (Store_timeline [(10, ''A''), (20, ''B'')]), Unlock, Act Notify_all],
                          [Act (Done_yet True), Act (Update 10 ''A''), Act (Set_shown 10)],
                          [Lock, Act (Store_timeline [(5, ''Z''), (10, ''A2''), (20, ''B2'')]),
                           Unlock, Act Notify_all],
                          [Unlock, Act (Wait_until 20), Lock],
                          [Act (Done_yet True), Act (Update 20 ''B2''), Act (Set_shown 20)]]
        \<and> (\<forall>k \<in> set (update_keys (concat (map ops log))). shown ?p < k)"
    using r e u by (intro exI [of _ log]) (simp only: simp_thms)
  show ?thesis
    by (intro conjI) (rule h1 h2 h4 [THEN conjunct1] h4 [THEN conjunct2] ex)+
qed

subsection \<open>A driver that is always busy\<close>

text \<open>
  Claim C4, as the spec states it, fails: the skips are accounted for before the
  driver is asked.  With the timeline \<open>{10 ms: A, 20 ms: B}\<close>, nothing shown yet, the
  clock at 25 ms and \<^verbatim>\<open>update_done_yet\<close> answering false, the pass skips the key
  10 ms and \<^verbatim>\<open>last_shown()\<close> moves from 0 to 10 ms.
\<close>

theorem busy_driver_skips_advance_shown:
  "always_busy [Iterate 25000000 False True :: string env]
   \<and> run [Iterate 25000000 False True]
        \<lparr>timeline = [(10000000, ''A''), (20000000, ''B'')], shown = 0, shutdown = False\<rparr>
     = Some [\<lparr>input = Iterate 25000000 False True,
              pre = \<lparr>timeline = [(10000000, ''A''), (20000000, ''B'')], shown = 0,
                      shutdown = False\<rparr>,
              ops = [Act (Warn 10000000 15), Act (Set_shown 10000000), Act (Done_yet False),
                     Unlock, Act (Wait_until 30000000), Lock],
              post = \<lparr>timeline = [(10000000, ''A''), (20000000, ''B'')], shown = 10000000,
                       shutdown = False\<rparr>\<rparr>]
   \<and> last_shown \<lparr>timeline = [(10000000, ''A''), (20000000, ''B'')], shown = 10000000,
                    shutdown = False\<rparr>
       \<noteq> last_shown \<lparr>timeline = [(10000000, ''A''), (20000000, ''B'')], shown = 0,
                       shutdown = False\<rparr>"
  by code_simp

text \<open>
  Claim C4, amended.  If \<^verbatim>\<open>update_done_yet\<close> returns false on every call, then for
  every timeline and every schedule of clock readings the player never calls the
  driver's \<^verbatim>\<open>update\<close>, and \<^verbatim>\<open>shown\<close> is never advanced to the frame that is due:
  \<^verbatim>\<open>last_shown()\<close> never decreases, and a pass that changes it (by accounting for
  skips) leaves it at a key of the timeline that lies strictly below another key
  which is itself not later than the clock reading.
\<close>

theorem busy_driver_never_updates:
  assumes "timeline_ok (timeline p)" and "timelines_ok es" and "always_busy es"
  shows "(shown p \<le> t \<and> clock_ok t es \<longrightarrow> run es p \<noteq> None)
     \<and> (\<forall>log. run es p = Some log \<longrightarrow>
          update_keys (concat (map ops log)) = []
        \<and> (\<forall>st \<in> set log.
              (\<forall>k a. Act (Update k a) \<notin> set (ops st))
            \<and> shown (pre st) \<le> shown (post st)
            \<and> (shown (post st) \<noteq> shown (pre st) \<longrightarrow>
                 (\<exists>now d w. input st = Iterate now d w
                    \<and> shown (post st) \<in> set (keys (timeline (pre st)))
                    \<and> (\<exists>k \<in> set (keys (timeline (pre st))).
                          shown (post st) < k \<and> k \<le> now)))))"
proof (intro conjI allI impI)
  assume "shown p \<le> t \<and> clock_ok t es"
  then show "run es p \<noteq> None" using run_defined [OF assms(1,2)] by blast
next
  fix log assume r: "run es p = Some log"
  have step: "\<forall>st \<in> set log. update_keys (ops st) = []
            \<and> shown (pre st) \<le> shown (post st)
            \<and> (shown (post st) \<noteq> shown (pre st) \<longrightarrow>
                 (\<exists>now d w. input st = Iterate now d w
                    \<and> shown (post st) \<in> set (keys (timeline (pre st)))
                    \<and> (\<exists>k \<in> set (keys (timeline (pre st))).
                          shown (post st) < k \<and> k \<le> now)))"
  proof
    fix st assume "st \<in> set log"
    with run_steps [OF assms(1,2) r] have ok: "timeline_ok (timeline (pre st))"
      and st: "env_step (input st) (pre st) = Some (ops st, post st)"
      and mem: "input st \<in> set es" by blast+
    have busy: "\<forall>now d w. input st = Iterate now d w \<longrightarrow> \<not> d"
      using always_busy_mem [OF assms(3)] mem by metis
    from env_step_busy [OF ok st busy] env_step_shown_le [OF ok st]
    show "update_keys (ops st) = []
            \<and> shown (pre st) \<le> shown (post st)
            \<and> (shown (post st) \<noteq> shown (pre st) \<longrightarrow>
                 (\<exists>now d w. input st = Iterate now d w
                    \<and> shown (post st) \<in> set (keys (timeline (pre st)))
                    \<and> (\<exists>k \<in> set (keys (timeline (pre st))).
                          shown (post st) < k \<and> k \<le> now)))" by blast
  qed
  then show "update_keys (concat (map ops log)) = []"
    by (intro update_keys_concat) simp
  show "\<forall>st \<in> set log.
              (\<forall>k a. Act (Update k a) \<notin> set (ops st))
            \<and> shown (pre st) \<le> shown (post st)
            \<and> (shown (post st) \<noteq> shown (pre st) \<longrightarrow>
                 (\<exists>now d w. input st = Iterate now d w
                    \<and> shown (post st) \<in> set (keys (timeline (pre st)))
                    \<and> (\<exists>k \<in> set (keys (timeline (pre st))).
                          shown (post st) < k \<and> k \<le> now)))"
  proof
    fix st assume m: "st \<in> set log"
    with step have s: "update_keys (ops st) = []
            \<and> shown (pre st) \<le> shown (post st)
            \<and> (shown (post st) \<noteq> shown (pre st) \<longrightarrow>
                 (\<exists>now d w. input st = Iterate now d w
                    \<and> shown (post st) \<in> set (keys (timeline (pre st)))
                    \<and> (\<exists>k \<in> set (keys (timeline (pre st))).
                          shown (post st) < k \<and> k \<le> now)))" by blast
    then have "\<forall>k a. Act (Update k a) \<notin> set (ops st)"
      using update_keys_mem [of _ "ops st"] by auto
    with s show "(\<forall>k a. Act (Update k a) \<notin> set (ops st))
            \<and> shown (pre st) \<le> shown (post st)
            \<and> (shown (post st) \<noteq> shown (pre st) \<longrightarrow>
                 (\<exists>now d w. input st = Iterate now d w
                    \<and> shown (post st) \<in> set (keys (timeline (pre st)))
                    \<and> (\<exists>k \<in> set (keys (timeline (pre st))).
                          shown (post st) < k \<and> k \<le> now)))" by blast
  qed
qed

theorem busy_driver_never_updates_witness:
  "timeline_ok (timeline (new_player :: string player))
   \<and> timelines_ok [Set_timeline [(10, ''A''), (20, ''B''), (30, ''C'')], Iterate 25 False True,
          Iterate 26 False False, Iterate 35 False True]
   \<and> always_busy [Set_timeline [(10, ''A''), (20, ''B''), (30, ''C'')], Iterate 25 False True,
          Iterate 26 False False, Iterate 35 False True]
   \<and> shown (new_player :: string player) \<le> 0
   \<and> clock_ok 0 [Set_timeline [(10, ''A''), (20, ''B''), (30, ''C'')], Iterate 25 False True,
          Iterate 26 False False, Iterate 35 False True]
   \<and> (\<exists>log. run [Set_timeline [(10, ''A''), (20, ''B''), (30, ''C'')], Iterate 25 False True,
          Iterate 26 False False, Iterate 35 False True] new_player = Some log
        \<and> map (\<lambda>st. last_shown (post st)) log = [0, 10, 10, 20]
        \<and> update_keys (concat (map ops log)) = [])"
proof -
  let ?es = "[Set_timeline [(10, ''A''), (20, ''B''), (30, ''C'')], Iterate 25 False True,
          Iterate 26 False False, Iterate 35 False True]"
  let ?p = "new_player :: string player"
  have h1: "timeline_ok (timeline ?p)" by (simp add: new_player_def timeline_ok_def)
  have h2: "timelines_ok ?es" by (simp add: timeline_ok_def)
  have h3: "always_busy ?es" by simp
  have h4: "shown ?p \<le> 0 \<and> clock_ok 0 ?es" by (simp add: new_player_def)
  note T = busy_driver_never_updates [OF h1 h2 h3, of 0]
  from T h4 have "run ?es ?p \<noteq> None" by blast
  then obtain log where r: "run ?es ?p = Some log" by auto
  have "map (\<lambda>st. last_shown (post st)) (the (run ?es ?p)) = [0, 10, 10, 20]"
    by code_simp
  with r have e: "map (\<lambda>st. last_shown (post st)) log = [0, 10, 10, 20]" by simp
  from T r have u: "update_keys (concat (map ops log)) = []" by blast
  have ex: "\<exists>log. run ?es ?p = Some log
        \<and> map (\<lambda>st. last_shown (post st)) log = [0, 10, 10, 20]
        \<and> update_keys (concat (map ops log)) = []"
    using r e u by (intro exI [of _ log]) (simp only: simp_thms)
  show ?thesis
    by (intro conjI) (rule h1 h2 h3 h4 [THEN conjunct1] h4 [THEN conjunct2] ex)+
qed

subsection \<open>The mutexes\<close>

text \<open>
  Claim C8, as the spec states it, fails for the frame player: the player thread
  takes its mutex once, before the loop, and releases it only inside the waits, so
  \<^verbatim>\<open>driver->update_done_yet\<close> and \<^verbatim>\<open>driver->update\<close> are called with the mutex
  held.  Here the pass that submits \<open>A\<close> performs all its actions with the mutex held.
\<close>

theorem update_called_with_mutex_held:
  "iteration 100 True True \<lparr>timeline = [(100, ''A'')], shown = 0, shutdown = False\<rparr>
     = Some ([Act (Done_yet True), Act (Update 100 ''A''), Act (Set_shown 100)],
             \<lparr>timeline = [(100, ''A'')], shown = 100, shutdown = False\<rparr>)
   \<and> lock_trace True [Act (Done_yet True), Act (Update 100 ''A''), Act (Set_shown 100)]
     = [(True, Done_yet True), (True, Update 100 ''A''), (True, Set_shown 100)]"
  by code_simp

text \<open>
  Claim C8, amended.  The main loop's mutex is never held across a Script Runner
  \<^verbatim>\<open>update\<close> call, nor across its sleeps.  The frame player's mutex is held across
  the driver's \<^verbatim>\<open>update_done_yet\<close> and \<^verbatim>\<open>update\<close> calls: the player thread holds
  its mutex at all times except while sleeping.  Both loops end every pass with the
  mutex held again.
\<close>

theorem lock_discipline:
  "(iteration now done warn p = Some (acts, p') \<longrightarrow>
      lock_after True acts
      \<and> (\<forall>hc \<in> set (lock_trace True acts). fst hc \<longleftrightarrow> \<not> is_wait (snd hc))
      \<and> (\<forall>k a. Act (Update k a) \<in> set acts \<longrightarrow>
            (True, Update k a) \<in> set (lock_trace True acts))
      \<and> (\<forall>d. Act (Done_yet d) \<in> set acts \<longrightarrow>
            (True, Done_yet d) \<in> set (lock_trace True acts)))
   \<and> (main_loop_iteration ar mono_now sv = Some (macts, sv') \<longrightarrow>
      lock_after True macts
      \<and> (\<forall>hc \<in> set (lock_trace True macts). \<not> fst hc)
      \<and> (\<forall>sc. Act (Runner_update sc) \<in> set macts \<longrightarrow>
            (False, Runner_update sc) \<in> set (lock_trace True macts)))"
proof (intro conjI impI)
  assume it: "iteration now done warn p = Some (acts, p')"
  have base: "lock_after True acts
      \<and> (\<forall>hc \<in> set (lock_trace True acts). fst hc \<longleftrightarrow> \<not> is_wait (snd hc))"
  proof (cases "timeline p = []")
    case True
    with it have "acts = cv_wait" by (simp add: iteration_def)
    then show ?thesis by (simp add: cv_wait_def)
  next
    case False
    with it obtain skips sh where
      sl: "skip_loop warn (timeline p) now (select_show (timeline p) (shown p) now)
             (upper_bound (timeline p) (shown p)) (shown p) = Some (skips, sh)"
      and acts: "acts = skips @ fst (present now done
                   (select_show (timeline p) (shown p) now) (p\<lparr>shown := sh\<rparr>))"
      by (auto simp: iteration_def Let_def split: option.splits prod.splits)
    from skip_loop_acts [OF sl] obtain ks where
      ks: "skips = concat (map (skip_actions warn now) ks)" by blast
    let ?rest = "fst (present now done (select_show (timeline p) (shown p) now)
                   (p\<lparr>shown := sh\<rparr>))"
    have la: "lock_after True skips = True"
      and lt: "\<forall>hc \<in> set (lock_trace True skips). fst hc \<and> \<not> is_wait (snd hc)"
      using skips_locked [of warn now ks] unfolding ks by blast+
    have pa: "lock_after True ?rest = True"
      and pt: "\<forall>hc \<in> set (lock_trace True ?rest). fst hc \<longleftrightarrow> \<not> is_wait (snd hc)"
      using present_locked by blast+
    have 1: "lock_after True acts"
      unfolding acts lock_after_append la using pa by simp
    have 2: "\<forall>hc \<in> set (lock_trace True acts). fst hc \<longleftrightarrow> \<not> is_wait (snd hc)"
      unfolding acts lock_trace_append la using lt pt by auto
    from 1 2 show ?thesis by blast
  qed
  then show "lock_after True acts"
    and "\<forall>hc \<in> set (lock_trace True acts). fst hc \<longleftrightarrow> \<not> is_wait (snd hc)" by blast+
  show "\<forall>k a. Act (Update k a) \<in> set acts \<longrightarrow>
            (True, Update k a) \<in> set (lock_trace True acts)"
  proof (intro allI impI)
    fix k a assume "Act (Update k a) \<in> set acts"
    from act_in_lock_trace [OF this, of True]
    obtain h' where m: "(h', Update k a) \<in> set (lock_trace True acts)" by blast
    with base have "h' \<longleftrightarrow> \<not> is_wait (Update k a)" by fastforce
    with m show "(True, Update k a) \<in> set (lock_trace True acts)" by simp
  qed
  show "\<forall>d. Act (Done_yet d) \<in> set acts \<longrightarrow>
            (True, Done_yet d) \<in> set (lock_trace True acts)"
  proof (intro allI impI)
    fix d assume "Act (Done_yet d) \<in> set acts"
    from act_in_lock_trace [OF this, of True]
    obtain h' where m: "(h', Done_yet d) \<in> set (lock_trace True acts)" by blast
    with base have "h' \<longleftrightarrow> \<not> is_wait (Done_yet d)" by fastforce
    with m show "(True, Done_yet d) \<in> set (lock_trace True acts)" by simp
  qed
next
  assume ml: "main_loop_iteration ar mono_now sv = Some (macts, sv')"
  then have cases: "macts = [Unlock, Act Flag_sleep, Lock]
     \<or> (\<exists>t. macts = [Unlock, Act (Flag_sleep_until t), Lock])
     \<or> (\<exists>sc. macts = [Unlock, Act (Runner_update sc), Lock])"
    by (auto simp: main_loop_iteration_def Let_def split: option.splits if_splits)
  then show "lock_after True macts" by auto
  from cases show "\<forall>hc \<in> set (lock_trace True macts). \<not> fst hc" by auto
  from cases show "\<forall>sc. Act (Runner_update sc) \<in> set macts \<longrightarrow>
            (False, Runner_update sc) \<in> set (lock_trace True macts)" by auto
qed

theorem lock_discipline_witness:
  "iteration 100 True True \<lparr>timeline = [(100, ''A'')], shown = 0, shutdown = False\<rparr>
     = Some ([Act (Done_yet True), Act (Update 100 ''A''), Act (Set_shown 100)],
             \<lparr>timeline = [(100, ''A'')], shown = 100, shutdown = False\<rparr>)
   \<and> (True, Update 100 ''A'')
        \<in> set (lock_trace True [Act (Done_yet True), Act (Update 100 ''A''), Act (Set_shown 100)])
   \<and> main_loop_iteration
        \<lparr>d_zero = 0 :: int, d_one = 1, d_add = (+), d_sub = (-), d_div = (div), d_less = (<)\<rparr>
        5 \<lparr>srv_script = Some \<lparr>main_loop_hz = 1\<rparr>, srv_shutdown = False, last_mono = 0\<rparr>
     = Some ([Unlock, Act (Runner_update \<lparr>main_loop_hz = 1\<rparr>), Lock],
             \<lparr>srv_script = Some \<lparr>main_loop_hz = 1\<rparr>, srv_shutdown = False, last_mono = 4\<rparr>)
   \<and> (False, Runner_update \<lparr>main_loop_hz = 1 :: int\<rparr>)
        \<in> set (lock_trace True [Unlock, Act (Runner_update \<lparr>main_loop_hz = 1\<rparr>), Lock])"
proof -
  let ?p = "\<lparr>timeline = [(100, ''A'')], shown = 0, shutdown = False\<rparr>"
  let ?p' = "\<lparr>timeline = [(100, ''A'')], shown = 100, shutdown = False\<rparr>"
  let ?acts = "[Act (Done_yet True), Act (Update 100 ''A''), Act (Set_shown 100)]"
  let ?ar = "\<lparr>d_zero = 0 :: int, d_one = 1, d_add = (+), d_sub = (-), d_div = (div),
               d_less = (<)\<rparr>"
  let ?sv = "\<lparr>srv_script = Some \<lparr>main_loop_hz = 1 :: int\<rparr>, srv_shutdown = False,
               last_mono = 0\<rparr>"
  let ?sv' = "\<lparr>srv_script = Some \<lparr>main_loop_hz = 1 :: int\<rparr>, srv_shutdown = False,
                last_mono = 4\<rparr>"
  let ?macts = "[Unlock, Act (Runner_update \<lparr>main_loop_hz = 1 :: int\<rparr>), Lock]"
  have e1: "iteration 100 True True ?p = Some (?acts, ?p')" by code_simp
  have e2: "main_loop_iteration ?ar 5 ?sv = Some (?macts, ?sv')"
    by (simp add: main_loop_iteration_def d_max_def)
  note T = lock_discipline [of 100 True True ?p ?acts ?p' ?ar 5 ?sv ?macts ?sv']
  from T e1 have 1: "(True, Update 100 ''A'') \<in> set (lock_trace True ?acts)"
    by (elim conjE) simp
  from T e2 have 2: "(False, Runner_update \<lparr>main_loop_hz = 1 :: int\<rparr>)
        \<in> set (lock_trace True ?macts)"
    by (elim conjE) simp
  show ?thesis by (intro conjI) (rule e1 1 e2 2)+
qed

subsection \<open>The choice of \<^verbatim>\<open>show\<close>\<close>

text \<open>
  Claim C1, as the spec states it, fails in its last part.  The atom \<open>A\<close> of key 100
  is submitted at the reading 100, so \<^verbatim>\<open>shown\<close> is 100; the timeline is then replaced
  by one with the atom \<open>A2\<close> at the same key.  At the reading 100 the key equals
  \<open>now\<close> exactly, yet the predecessor is not kept (its key is not greater than
  \<^verbatim>\<open>shown\<close>): \<^verbatim>\<open>show\<close> is \<^verbatim>\<open>end()\<close>, the atom of the key is not selected and the
  pass waits.
\<close>

theorem exact_key_already_shown_not_selected:
  "timeline_ok [(100 :: steady_time, ''A2'')]
   \<and> fst ([(100 :: steady_time, ''A2'')] ! 0) = 100
   \<and> select_show [(100, ''A2'')] 100 100 = 1
   \<and> map post (the (run [Set_timeline [(100, ''A'')], Iterate 100 True True,
                           Set_timeline [(100, ''A2'')]] new_player))
       = [\<lparr>timeline = [(100, ''A'')], shown = 0, shutdown = False\<rparr>,
          \<lparr>timeline = [(100, ''A'')], shown = 100, shutdown = False\<rparr>,
          \<lparr>timeline = [(100, ''A2'')], shown = 100, shutdown = False\<rparr>]
   \<and> iteration 100 True True \<lparr>timeline = [(100, ''A2'')], shown = 100, shutdown = False\<rparr>
       = Some ([Unlock, Act Wait, Lock],
               \<lparr>timeline = [(100, ''A2'')], shown = 100, shutdown = False\<rparr>)"
  by code_simp

text \<open>
  Claim C1, amended.  For every timeline and every current time \<open>now\<close>, the pass
  selects as \<^verbatim>\<open>show\<close> exactly the position obtained by taking the upper bound on
  \<open>now\<close> (the first position whose key is greater than \<open>now\<close>), stepping back one
  if that is not the first position, and keeping the predecessor only if its key is
  strictly greater than \<^verbatim>\<open>shown\<close>, otherwise remaining at the upper bound.  In
  particular, when \<open>now\<close> equals a key of the timeline exactly and that key is
  greater than \<^verbatim>\<open>shown\<close>, the position of that key is the one selected, not the
  prior one, the key is not among the skipped ones, and its atom is submitted when
  the driver is ready; when the key is not greater than \<^verbatim>\<open>shown\<close>, the position
  after it is selected.
\<close>

theorem select_show_position:
  assumes ok: "timeline_ok (timeline p)"
  shows "upper_bound (timeline p) now \<le> length (timeline p)
     \<and> (\<forall>i < length (timeline p).
           i < upper_bound (timeline p) now \<longleftrightarrow> fst (timeline p ! i) \<le> now)
     \<and> select_show (timeline p) (shown p) now
         = (if upper_bound (timeline p) now \<noteq> 0
               \<and> shown p < fst (timeline p ! (upper_bound (timeline p) now - 1))
            then upper_bound (timeline p) now - 1 else upper_bound (timeline p) now)
     \<and> (\<forall>i < length (timeline p). fst (timeline p ! i) = now \<longrightarrow>
           (shown p < now \<longrightarrow>
              select_show (timeline p) (shown p) now = i
              \<and> now \<notin> set (skipped (timeline p) (shown p) i)
              \<and> iteration now True warn p =
                  Some (concat (map (skip_actions warn now) (skipped (timeline p) (shown p) i))
                          @ [Act (Done_yet True), Act (Update now (snd (timeline p ! i))),
                             Act (Set_shown now)],
                        p\<lparr>shown := now\<rparr>))
         \<and> (now \<le> shown p \<longrightarrow> select_show (timeline p) (shown p) now = Suc i))"
proof (intro conjI allI impI)
  show "upper_bound (timeline p) now \<le> length (timeline p)" by (rule upper_bound_le)
  show "select_show (timeline p) (shown p) now
         = (if upper_bound (timeline p) now \<noteq> 0
               \<and> shown p < fst (timeline p ! (upper_bound (timeline p) now - 1))
            then upper_bound (timeline p) now - 1 else upper_bound (timeline p) now)"
    by (rule select_show_cases)
next
  fix i assume "i < length (timeline p)"
  then show "i < upper_bound (timeline p) now \<longleftrightarrow> fst (timeline p ! i) \<le> now"
    by (rule upper_bound_iff [OF ok])
next
  fix i assume i: "i < length (timeline p)" and key: "fst (timeline p ! i) = now"
  let ?tml = "timeline p"
  have lt: "i < upper_bound ?tml now" using upper_bound_iff [OF ok i, of now] key by simp
  have "\<not> Suc i < upper_bound ?tml now"
  proof
    assume s: "Suc i < upper_bound ?tml now"
    then have len: "Suc i < length ?tml" using upper_bound_le [of ?tml now] by linarith
    have "fst (?tml ! Suc i) \<le> now" using upper_bound_iff [OF ok len, of now] s by simp
    moreover have "fst (?tml ! i) < fst (?tml ! Suc i)"
      using timeline_ok_nth_less [OF ok _ len, of i] by simp
    ultimately show False using key by simp
  qed
  with lt have ub: "upper_bound ?tml now = Suc i" by linarith
  {
    assume "now \<le> shown p"
    then show "select_show ?tml (shown p) now = Suc i"
      by (simp add: select_show_cases ub key)
  }
  assume sh: "shown p < now"
  then show sel: "select_show ?tml (shown p) now = i"
    by (simp add: select_show_cases ub key)
  show "now \<notin> set (skipped ?tml (shown p) i)"
    using skipped_set [OF ok i, of "shown p"] key by simp
  have ne: "?tml \<noteq> []" using i by auto
  have le: "upper_bound ?tml (shown p) \<le> select_show ?tml (shown p) now"
    using upper_bound_le_select [OF ok, of "shown p" now] sh by simp
  show "iteration now True warn p =
          Some (concat (map (skip_actions warn now) (skipped ?tml (shown p) i))
                  @ [Act (Done_yet True), Act (Update now (snd (?tml ! i))), Act (Set_shown now)],
                p\<lparr>shown := now\<rparr>)"
    using i key unfolding iteration_explicit [OF ok ne le] sel
    by (simp add: present_def)
qed

theorem select_show_position_witness:
  "timeline_ok (timeline \<lparr>timeline = [(10, ''A''), (20, ''B''), (30, ''C'')], shown = 0,
                           shutdown = False\<rparr>)
   \<and> 1 < length (timeline \<lparr>timeline = [(10, ''A''), (20, ''B''), (30, ''C'')], shown = 0,
                              shutdown = False\<rparr>)
   \<and> fst (timeline \<lparr>timeline = [(10, ''A''), (20, ''B''), (30, ''C'')], shown = 0,
                      shutdown = False\<rparr> ! 1) = 20
   \<and> shown \<lparr>timeline = [(10, ''A''), (20, ''B''), (30, ''C'')], shown = 0,
              shutdown = False\<rparr> < 20
   \<and> select_show [(10, ''A''), (20, ''B''), (30, ''C'')] 0 20 = 1
   \<and> iteration 20 True True
        \<lparr>timeline = [(10, ''A''), (20, ''B''), (30, ''C'')], shown = 0, shutdown = False\<rparr>
       = Some ([Act (Warn 10 0), Act (Set_shown 10), Act (Done_yet True),
                Act (Update 20 ''B''), Act (Set_shown 20)],
               \<lparr>timeline = [(10, ''A''), (20, ''B''), (30, ''C'')], shown = 20,
                  shutdown = False\<rparr>)"
proof -
  let ?p = "\<lparr>timeline = [(10, ''A''), (20, ''B''), (30, ''C'')], shown = 0,
              shutdown = False\<rparr>"
  have h1: "timeline_ok (timeline ?p)" by (simp add: timeline_ok_def)
  have h2: "1 < length (timeline ?p)" by simp
  have h3: "fst (timeline ?p ! 1) = 20" by simp
  have h4: "shown ?p < 20" by simp
  note T = select_show_position [OF h1, of 20 True,
      THEN conjunct2, THEN conjunct2, THEN conjunct2, rule_format, OF h2 h3,
      THEN conjunct1, rule_format, OF h4]
  have ev: "concat (map (skip_actions True 20) (skipped (timeline ?p) (shown ?p) 1))
              = ([Act (Warn 10 0), Act (Set_shown 10)] :: string action op list)"
    by code_simp
  from T have sel: "select_show [(10, ''A''), (20, ''B''), (30, ''C'')] 0 20 = 1" by simp
  from T have it: "iteration 20 True True ?p
       = Some ([Act (Warn 10 0), Act (Set_shown 10), Act (Done_yet True),
                Act (Update 20 ''B''), Act (Set_shown 20)],
               \<lparr>timeline = [(10, ''A''), (20, ''B''), (30, ''C'')], shown = 20,
                  shutdown = False\<rparr>)"
    unfolding ev by simp
  show ?thesis by (intro conjI) (rule h1 h2 h3 h4 sel it)+
qed

subsection \<open>Skip accounting\<close>

text \<open>
  Claim C3, as the spec states it, fails.  All keys of the timeline
  \<open>{10 ms: A, 20 ms: B, 30 ms: C}\<close> are in the past at 35 ms.  With the driver busy
  the pass skips 10 ms and 20 ms but submits nothing, and \<^verbatim>\<open>last_shown()\<close> is 20 ms
  although the frame of 30 ms is due.  With the driver ready and the logger not
  logging warnings, the two keys are skipped without any warning.
\<close>

theorem busy_driver_latest_not_submitted:
  "iteration 35000000 False True
     \<lparr>timeline = [(10000000, ''A''), (20000000, ''B''), (30000000, ''C'')], shown = 0,
        shutdown = False\<rparr>
     = Some ([Act (Warn 10000000 25), Act (Set_shown 10000000),
              Act (Warn 20000000 15), Act (Set_shown 20000000), Act (Done_yet False),
              Unlock, Act (Wait_until 40000000), Lock],
             \<lparr>timeline = [(10000000, ''A''), (20000000, ''B''), (30000000, ''C'')],
                shown = 20000000, shutdown = False\<rparr>)
   \<and> iteration 35000000 True False
     \<lparr>timeline = [(10000000, ''A''), (20000000, ''B''), (30000000, ''C'')], shown = 0,
        shutdown = False\<rparr>
     = Some ([Act (Set_shown 10000000), Act (Set_shown 20000000), Act (Done_yet True),
              Act (Update 30000000 ''C''), Act (Set_shown 30000000)],
             \<lparr>timeline = [(10000000, ''A''), (20000000, ''B''), (30000000, ''C'')],
                shown = 30000000, shutdown = False\<rparr>)"
  by code_simp

text \<open>
  Claim C3, amended.  At every pass over a non-empty timeline, with \<^verbatim>\<open>shown\<close> not
  later than the clock reading, the pass does exactly this: for each timeline key
  strictly between \<^verbatim>\<open>shown\<close> and the key of the selected position, in increasing
  order, it emits a warning with the scheduled time and the age in milliseconds (when
  the logger logs warnings, and no warning otherwise) and advances \<^verbatim>\<open>shown\<close> to
  that key; each such key is in the past and no driver update is submitted for it.
  Then, when the selected frame is due and the driver is ready, its atom and no other
  is submitted and \<^verbatim>\<open>last_shown()\<close> is its key, the greatest key not later than the
  clock reading; otherwise nothing is submitted, the pass waits, and
  \<^verbatim>\<open>last_shown()\<close> is the last skipped key, or unchanged.  When all keys are in the
  past and the latest is greater than \<^verbatim>\<open>shown\<close>, the latest is the selected one, the
  earlier keys greater than \<^verbatim>\<open>shown\<close> are the skipped ones, and the latest key's
  atom is submitted if the driver is ready.
\<close>

theorem skip_accounting:
  fixes p :: "'a player" and now :: steady_time and "done" warn :: bool
  fixes tml "show" sk skips rest acts sh'
  defines "tml \<equiv> timeline p"
    and "show \<equiv> select_show (timeline p) (shown p) now"
    and "sk \<equiv> skipped (timeline p) (shown p) (select_show (timeline p) (shown p) now)"
    and "skips \<equiv> concat (map (\<lambda>k. (if warn then [Act (Warn k ((now - k) sdiv 1000000))] else [])
                                    @ [Act (Set_shown k)]) sk)"
    and "rest \<equiv>
       (if show = length tml then [Unlock, Act Wait, Lock]
        else if now < fst (tml ! show)
          then [Unlock, Act (Wait_until (fst (tml ! show))), Lock]
        else if \<not> done
          then [Act (Done_yet False), Unlock, Act (Wait_until (now + 5000000)), Lock]
        else [Act (Done_yet True), Act (Update (fst (tml ! show)) (snd (tml ! show))),
              Act (Set_shown (fst (tml ! show)))])"
    and "acts \<equiv> skips @ rest"
    and "sh' \<equiv> (if show < length tml \<and> fst (tml ! show) \<le> now \<and> done
                 then fst (tml ! show) else last (shown p # sk))"
  assumes ok: "timeline_ok (timeline p)" and ne: "timeline p \<noteq> []" and le: "shown p \<le> now"
  shows "iteration now done warn p = Some (acts, p\<lparr>shown := sh'\<rparr>)
     \<and> sorted_wrt (<) (shown p # sk)
     \<and> (show < length tml \<longrightarrow>
           set sk = {k \<in> set (keys tml). shown p < k \<and> k < fst (tml ! show)})
     \<and> (show = length tml \<longrightarrow> sk = [])
     \<and> (\<forall>k \<in> set sk. k \<le> now
           \<and> Act (Set_shown k) \<in> set acts
           \<and> (warn \<longrightarrow> Act (Warn k ((now - k) sdiv 1000000)) \<in> set acts)
           \<and> (\<forall>a. Act (Update k a) \<notin> set acts))
     \<and> (\<forall>k age. Act (Warn k age) \<in> set acts \<longrightarrow>
           warn \<and> k \<in> set sk \<and> age = (now - k) sdiv 1000000)
     \<and> shown_values acts
         = sk @ (if show < length tml \<and> fst (tml ! show) \<le> now \<and> done
                 then [fst (tml ! show)] else [])
     \<and> (\<forall>k a. Act (Update k a) \<in> set acts \<longleftrightarrow>
           show < length tml \<and> fst (tml ! show) \<le> now \<and> done
           \<and> k = fst (tml ! show) \<and> a = snd (tml ! show))
     \<and> (show < length tml \<and> fst (tml ! show) \<le> now \<longrightarrow>
           (\<forall>k \<in> set (keys tml). k \<le> now \<longrightarrow> k \<le> fst (tml ! show)))
     \<and> ((\<forall>k \<in> set (keys tml). k \<le> now) \<and> shown p < fst (last tml) \<longrightarrow>
           show = length tml - 1
           \<and> sk = filter (\<lambda>k. shown p < k) (keys (butlast tml))
           \<and> (done \<longrightarrow>
                 rest = [Act (Done_yet True), Act (Update (fst (last tml)) (snd (last tml))),
                         Act (Set_shown (fst (last tml)))]
                 \<and> sh' = fst (last tml)))"
proof -
  let ?p1 = "p\<lparr>shown := last (shown p # sk)\<rparr>"
  note A = iteration_skips_present [OF ok ne le, of "done" warn,
      folded tml_def show_def sk_def]
  have show_le: "show \<le> length tml"
    unfolding tml_def show_def by (rule select_show_le)
  then have show_le1: "show \<le> length (timeline ?p1)" by (simp add: tml_def)
  have sa: "concat (map (skip_actions warn now) sk) = skips"
    unfolding skips_def skip_actions_explicit ..
  have pr: "present now done show ?p1 = (rest, p\<lparr>shown := sh'\<rparr>)"
    unfolding present_explicit [OF show_le1] rest_def sh'_def
    by (simp add: tml_def)
  have frest: "fst (present now done show ?p1) = rest"
    and srest: "snd (present now done show ?p1) = p\<lparr>shown := sh'\<rparr>"
    using pr by simp_all
  note B = A [unfolded sa frest srest, folded acts_def]
  have c1: "iteration now done warn p = Some (acts, p\<lparr>shown := sh'\<rparr>)"
    using B by (rule conjunct1)
  have c2: "sorted_wrt (<) (shown p # sk)" using B by blast
  have c3: "show < length tml \<longrightarrow>
           set sk = {k \<in> set (keys tml). shown p < k \<and> k < fst (tml ! show)}"
    using B by blast
  have c4: "show = length tml \<longrightarrow> sk = []" using B by blast
  have old5: "\<forall>k \<in> set sk. k \<le> now \<and> (\<forall>a. Act (Update k a) \<notin> set acts)"
    using B by blast
  have c9: "show < length tml \<and> fst (tml ! show) \<le> now \<longrightarrow>
           (\<forall>k \<in> set (keys tml). k \<le> now \<longrightarrow> k \<le> fst (tml ! show))"
    using B by blast
  have c10: "(\<forall>k \<in> set (keys tml). k \<le> now) \<and> shown p < fst (last tml) \<longrightarrow>
           show = length tml - 1
           \<and> sk = filter (\<lambda>k. shown p < k) (keys (butlast tml))
           \<and> (done \<longrightarrow>
                 rest = [Act (Done_yet True), Act (Update (fst (last tml)) (snd (last tml))),
                         Act (Set_shown (fst (last tml)))]
                 \<and> sh' = fst (last tml))"
  proof
    assume a: "(\<forall>k \<in> set (keys tml). k \<le> now) \<and> shown p < fst (last tml)"
    with B have x: "show = length tml - 1"
      and y: "sk = filter (\<lambda>k. shown p < k) (keys (butlast tml))"
      and z: "done \<longrightarrow>
                 rest = [Act (Done_yet True), Act (Update (fst (last tml)) (snd (last tml))),
                         Act (Set_shown (fst (last tml)))]
                 \<and> shown (p\<lparr>shown := sh'\<rparr>) = fst (last tml)"
      by blast+
    from z have "done \<longrightarrow>
                 rest = [Act (Done_yet True), Act (Update (fst (last tml)) (snd (last tml))),
                         Act (Set_shown (fst (last tml)))]
                 \<and> sh' = fst (last tml)" by simp
    with x y show "show = length tml - 1
           \<and> sk = filter (\<lambda>k. shown p < k) (keys (butlast tml))
           \<and> (done \<longrightarrow>
                 rest = [Act (Done_yet True), Act (Update (fst (last tml)) (snd (last tml))),
                         Act (Set_shown (fst (last tml)))]
                 \<and> sh' = fst (last tml))" by blast
  qed
  have in_skips: "\<And>x. x \<in> set skips \<longleftrightarrow>
      (\<exists>k \<in> set sk. x = Act (Set_shown k)
          \<or> (warn \<and> x = Act (Warn k ((now - k) sdiv 1000000))))"
    unfolding skips_def by auto
  have warn_rest: "\<And>k age. Act (Warn k age) \<notin> set rest"
    unfolding rest_def by simp
  have c5: "\<forall>k \<in> set sk. k \<le> now
           \<and> Act (Set_shown k) \<in> set acts
           \<and> (warn \<longrightarrow> Act (Warn k ((now - k) sdiv 1000000)) \<in> set acts)
           \<and> (\<forall>a. Act (Update k a) \<notin> set acts)"
    using old5 in_skips unfolding acts_def by auto
  have c6: "\<forall>k age. Act (Warn k age) \<in> set acts \<longrightarrow>
           warn \<and> k \<in> set sk \<and> age = (now - k) sdiv 1000000"
    using in_skips warn_rest unfolding acts_def by auto
  have sv_skips: "shown_values skips = sk"
    unfolding sa [symmetric] by (rule shown_values_skips)
  have sv_rest: "shown_values rest
         = (if show < length tml \<and> fst (tml ! show) \<le> now \<and> done
            then [fst (tml ! show)] else [])"
    using show_le unfolding rest_def by auto
  have c7: "shown_values acts
         = sk @ (if show < length tml \<and> fst (tml ! show) \<le> now \<and> done
                 then [fst (tml ! show)] else [])"
    unfolding acts_def shown_values_append sv_skips sv_rest ..
  have upd_skips: "\<And>k a. Act (Update k a) \<notin> set skips"
    using in_skips by auto
  have c8: "\<forall>k a. Act (Update k a) \<in> set acts \<longleftrightarrow>
           show < length tml \<and> fst (tml ! show) \<le> now \<and> done
           \<and> k = fst (tml ! show) \<and> a = snd (tml ! show)"
    using upd_skips show_le unfolding acts_def rest_def by auto
  from c1 c2 c3 c4 c5 c6 c7 c8 c9 c10 show ?thesis by (intro conjI)
qed

theorem skip_accounting_witness:
  "timeline_ok (timeline \<lparr>timeline = [(10000000, ''A''), (20000000, ''B''), (30000000, ''C'')],
                           shown = 0, shutdown = False\<rparr>)
   \<and> timeline \<lparr>timeline = [(10000000, ''A''), (20000000, ''B''), (30000000, ''C'')],
                 shown = 0, shutdown = False\<rparr> \<noteq> []
   \<and> shown \<lparr>timeline = [(10000000, ''A''), (20000000, ''B''), (30000000, ''C'')],
              shown = 0, shutdown = False\<rparr> \<le> 25000000
   \<and> skipped [(10000000, ''A''), (20000000, ''B''), (30000000, ''C'')] 0
        (select_show [(10000000, ''A''), (20000000, ''B''), (30000000, ''C'')] 0 25000000)
       = [10000000]
   \<and> iteration 25000000 True True
        \<lparr>timeline = [(10000000, ''A''), (20000000, ''B''), (30000000, ''C'')], shown = 0,
           shutdown = False\<rparr>
       = Some ([Act (Warn 10000000 15), Act (Set_shown 10000000), Act (Done_yet True),
                Act (Update 20000000 ''B''), Act (Set_shown 20000000)],
               \<lparr>timeline = [(10000000, ''A''), (20000000, ''B''), (30000000, ''C'')],
                  shown = 20000000, shutdown = False\<rparr>)"
proof -
  let ?p = "\<lparr>timeline = [(10000000, ''A''), (20000000, ''B''), (30000000, ''C'')],
              shown = 0, shutdown = False\<rparr>"
  have h1: "timeline_ok (timeline ?p)" by (simp add: timeline_ok_def)
  have h2: "timeline ?p \<noteq> []" by simp
  have h3: "shown ?p \<le> 25000000" by simp
  note T = skip_accounting [OF h1 h2 h3, of True True, THEN conjunct1]
  have ev0: "select_show (timeline ?p) (shown ?p) 25000000 = 1" by code_simp
  have ev1: "skipped (timeline ?p) (shown ?p) 1 = [10000000]" by code_simp
  have ev2: "(25000000 - 10000000 :: int) sdiv 1000000 = 15" by code_simp
  have sk: "skipped [(10000000, ''A''), (20000000, ''B''), (30000000, ''C'')] 0
        (select_show [(10000000, ''A''), (20000000, ''B''), (30000000, ''C'')] 0 25000000)
       = [10000000]"
    using ev0 ev1 by simp
  from T have it: "iteration 25000000 True True ?p
       = Some ([Act (Warn 10000000 15), Act (Set_shown 10000000), Act (Done_yet True),
                Act (Update 20000000 ''B''), Act (Set_shown 20000000)],
               \<lparr>timeline = [(10000000, ''A''), (20000000, ''B''), (30000000, ''C'')],
                  shown = 20000000, shutdown = False\<rparr>)"
    unfolding ev0 ev1 ev2 by simp
  show ?thesis by (intro conjI) (rule h1 h2 h3 sk it)+
qed

subsection \<open>The tick of the main loop\<close>



end
